theory Spec2Isabelle
  imports Main
begin

section \<open>Tokens and lexer state (lexer.py)\<close>

text \<open>
  The token kinds of \<^verbatim>\<open>class TokenType(Enum)\<close>, in the order of the
      source. The kind
  the source calls \<^verbatim>\<open>INT\<close> is written \<open>INT_TOK\<close>, because
      \<open>INT\<close> is reserved by the
  term syntax of HOL.
\<close>

datatype TokenType =
    LPAREN | RPAREN
  | PLUS | MINUS | STAR | SLASH | EQ | LT | GT
  | IF | DO | DEF | DEFN | LET | PRINT | STRFN | LISTFN | NTH | HEAD | TAIL
  | BOOL | INT_TOK | STRING | IDENT
  | EOF

text \<open>\<^verbatim>\<open>TokenType.name\<close>, as it is printed in the parser's error
    messages.\<close>

fun name :: "TokenType \<Rightarrow> string" where
  "name LPAREN = ''LPAREN''" | "name RPAREN = ''RPAREN''"
| "name PLUS = ''PLUS''" | "name MINUS = ''MINUS''" | "name STAR = ''STAR''"
| "name SLASH = ''SLASH''" | "name EQ = ''EQ''" | "name LT = ''LT''" | "name GT = ''GT''"
| "name IF = ''IF''" | "name DO = ''DO''" | "name DEF = ''DEF''" | "name DEFN = ''DEFN''"
| "name LET = ''LET''" | "name PRINT = ''PRINT''" | "name STRFN = ''STRFN''"
| "name LISTFN = ''LISTFN''" | "name NTH = ''NTH''" | "name HEAD = ''HEAD''"
| "name TAIL = ''TAIL''" | "name BOOL = ''BOOL''" | "name INT_TOK = ''INT''"
| "name STRING = ''STRING''" | "name IDENT = ''IDENT''" | "name EOF = ''EOF''"

text \<open>The dataclass \<^verbatim>\<open>Token(type, lexeme, line, column)\<close>.\<close>

datatype Token = Token (type: TokenType) (lexeme: string) (line: int) (column: int)

text \<open>
  The two exception classes. A \<^verbatim>\<open>LexerError\<close> is raised at two places of
      the lexer,
  each with a formatted message; the model keeps the values that the message is formatted
  from: the offending character with the current line and column, or the line and column
  at which the unterminated string began. A \<^verbatim>\<open>ParserError\<close> keeps the
      text of the
  expectation and the token that was found.
\<close>

datatype error =
    LexerError_unexpected char int int
  | LexerError_unterminated int int
  | ParserError string Token

text \<open>
  The mutable fields of \<^verbatim>\<open>class Lexer\<close>. Characters are the 8-bit
      characters of HOL, so
  the texts covered are the Python strings over the code points 0 to 255.
\<close>

record Lexer =
  "text" :: string
  pos :: nat
  line :: int
  column :: int

text \<open>\<^verbatim>\<open>Lexer.__init__\<close>\<close>

definition Lexer_init :: "string \<Rightarrow> Lexer" where
  "Lexer_init txt = \<lparr>text = txt, pos = 0, line = 1, column = 1\<rparr>"

subsection \<open>Character classes\<close>

text \<open>
  \<^verbatim>\<open>str.isdigit\<close>, \<^verbatim>\<open>str.isalpha\<close> and
      \<^verbatim>\<open>str.isalnum\<close> of Python on one character,
  for the code points 0 to 255: the decimal digits and the superscripts 1, 2, 3 are
  digits; the Latin letters, the ordinal indicators, the micro sign and the accented
  letters of Latin-1 are alphabetic; the vulgar fractions are numeric and hence
  alphanumeric.
\<close>

definition isdigit :: "char \<Rightarrow> bool" where
  "isdigit c =
    (let n = (of_char c :: nat)
     in (48 \<le> n \<and> n \<le> 57) \<or> n = 178 \<or> n = 179 \<or> n = 185)"

definition isalpha :: "char \<Rightarrow> bool" where
  "isalpha c =
    (let n = (of_char c :: nat)
     in (65 \<le> n \<and> n \<le> 90) \<or> (97 \<le> n \<and> n \<le> 122)
        \<or> n = 170 \<or> n = 181 \<or> n = 186
        \<or> (192 \<le> n \<and> n \<le> 214) \<or> (216 \<le> n \<and> n \<le> 246) \<or> (248
            \<le> n \<and> n \<le> 255))"

definition isalnum :: "char \<Rightarrow> bool" where
  "isalnum c =
    (let n = (of_char c :: nat)
     in isalpha c \<or> isdigit c \<or> (188 \<le> n \<and> n \<le> 190))"

definition is_ident_start :: "char \<Rightarrow> bool" where
  "is_ident_start c = (isalpha c \<or> c = CHR ''_'')"

definition is_ident_part :: "char \<Rightarrow> bool" where
  "is_ident_part c = (isalnum c \<or> c = CHR ''_'')"

lemma isdigit_nul [simp]: "\<not> isdigit (CHR 0x00)"
  by (simp add: isdigit_def Let_def)

lemma isalpha_nul [simp]: "\<not> isalpha (CHR 0x00)"
  by (simp add: isalpha_def Let_def)

lemma is_ident_part_nul [simp]: "\<not> is_ident_part (CHR 0x00)"
  by (simp add: is_ident_part_def isalnum_def Let_def)

lemma is_ident_start_nul [simp]: "\<not> is_ident_start (CHR 0x00)"
  by (simp add: is_ident_start_def)

lemma isdigit_not_nul: "isdigit c \<Longrightarrow> c \<noteq> CHR 0x00"
  by auto

lemma is_ident_part_not_nul: "is_ident_part c \<Longrightarrow> c \<noteq> CHR 0x00"
  by auto

lemma is_ident_start_not_nul: "is_ident_start c \<Longrightarrow> c \<noteq> CHR 0x00"
  by auto

subsection \<open>Cursor primitives\<close>

definition peek :: "Lexer \<Rightarrow> char" where
  "peek s = (if pos s \<ge> length (text s) then CHR 0x00 else text s ! pos s)"

definition peek_next :: "Lexer \<Rightarrow> char" where
  "peek_next s = (if pos s + 1 \<ge> length (text s) then CHR 0x00 else text s ! (pos s + 1))"

definition consume :: "Lexer \<Rightarrow> Lexer" where
  "consume s =
    (if pos s \<ge> length (text s) then s
     else let c = text s ! pos s;
              s1 = s\<lparr>pos := pos s + 1\<rparr>
          in if c = CHR 0x0A then s1\<lparr>line := line s1 + 1, column := 1\<rparr>
             else s1\<lparr>column := column s1 + 1\<rparr>)"

text \<open>The number of characters that are still unread.\<close>

definition remaining :: "Lexer \<Rightarrow> nat" where
  "remaining s = length (text s) - pos s"

lemma text_consume [simp]: "text (consume s) = text s"
  by (simp add: consume_def Let_def)

lemma remaining_consume_le: "remaining (consume s) \<le> remaining s"
  by (auto simp: consume_def remaining_def Let_def)

lemma peek_not_nul_in_range: "peek s \<noteq> CHR 0x00 \<Longrightarrow> pos s < length (text s)"
  by (simp add: peek_def split: if_splits)

lemma remaining_consume_less:
  "pos s < length (text s) \<Longrightarrow> remaining (consume s) < remaining s"
  by (auto simp: consume_def remaining_def Let_def)

lemma remaining_consume_peek:
  "peek s \<noteq> CHR 0x00 \<Longrightarrow> remaining (consume s) < remaining s"
  by (simp add: peek_not_nul_in_range remaining_consume_less)

subsection \<open>Skipping white space and comments\<close>

text \<open>The inner loop of \<^verbatim>\<open>skip_whitespace_and_comments\<close>: the rest
    of a comment line.\<close>

function skip_comment :: "Lexer \<Rightarrow> Lexer" where
  "skip_comment s =
    (if peek s \<noteq> CHR 0x0A \<and> peek s \<noteq> CHR 0x00 then skip_comment (consume s)
        else s)"
  by pat_completeness auto
termination
  by (relation "measure remaining") (auto simp: remaining_consume_peek)

declare skip_comment.simps [simp del]

lemma text_skip_comment [simp]: "text (skip_comment s) = text s"
  by (induction s rule: skip_comment.induct) (subst skip_comment.simps, simp)

lemma remaining_skip_comment_le: "remaining (skip_comment s) \<le> remaining s"
proof (induction s rule: skip_comment.induct)
  case (1 s)
  show ?case
  proof (cases "peek s \<noteq> CHR 0x0A \<and> peek s \<noteq> CHR 0x00")
    case True
    then have "remaining (skip_comment s) = remaining (skip_comment (consume s))"
      by (subst skip_comment.simps) simp
    also have "\<dots> \<le> remaining (consume s)"
      using "1.IH" True by simp
    also have "\<dots> \<le> remaining s"
      by (rule remaining_consume_le)
    finally show ?thesis .
  next
    case False
    then show ?thesis
      by (subst skip_comment.simps) auto
  qed
qed

definition is_space :: "char \<Rightarrow> bool" where
  "is_space c = (c = CHR '' '' \<or> c = CHR 0x09 \<or> c = CHR 0x0D \<or> c = CHR 0x0A)"

lemma is_space_not_nul: "is_space c \<Longrightarrow> c \<noteq> CHR 0x00"
  by (auto simp: is_space_def)

function skip_whitespace_and_comments :: "Lexer \<Rightarrow> Lexer" where
  "skip_whitespace_and_comments s =
    (if is_space (peek s) then skip_whitespace_and_comments (consume s)
     else if peek s = CHR '';'' \<and> peek_next s = CHR '';''
       then skip_whitespace_and_comments (skip_comment (consume (consume s)))
     else s)"
  by pat_completeness auto
termination
proof (relation "measure remaining")
  show "wf (measure remaining)" by simp
next
  fix s assume "is_space (peek s)"
  then show "(consume s, s) \<in> measure remaining"
    by (simp add: remaining_consume_peek is_space_not_nul)
next
  fix s assume "\<not> is_space (peek s)" and c: "peek s = CHR '';'' \<and> peek_next s = CHR '';''"
  have "remaining (skip_comment (consume (consume s))) \<le> remaining (consume (consume s))"
    by (rule remaining_skip_comment_le)
  also have "\<dots> \<le> remaining (consume s)"
    by (rule remaining_consume_le)
  also have "\<dots> < remaining s"
    using c by (simp add: remaining_consume_peek)
  finally show "(skip_comment (consume (consume s)), s) \<in> measure remaining"
    by simp
qed

declare skip_whitespace_and_comments.simps [simp del]

lemma text_skip_whitespace_and_comments [simp]:
  "text (skip_whitespace_and_comments s) = text s"
  by (induction s rule: skip_whitespace_and_comments.induct)
     (subst skip_whitespace_and_comments.simps, simp)

lemma remaining_skip_whitespace_and_comments_le:
  "remaining (skip_whitespace_and_comments s) \<le> remaining s"
proof (induction s rule: skip_whitespace_and_comments.induct)
  case (1 s)
  show ?case
  proof (cases "is_space (peek s)")
    case True
    then have "remaining (skip_whitespace_and_comments s)
        = remaining (skip_whitespace_and_comments (consume s))"
      by (subst skip_whitespace_and_comments.simps) simp
    also have "\<dots> \<le> remaining (consume s)"
      using "1.IH"(1) True by simp
    also have "\<dots> \<le> remaining s"
      by (rule remaining_consume_le)
    finally show ?thesis .
  next
    case nsp: False
    show ?thesis
    proof (cases "peek s = CHR '';'' \<and> peek_next s = CHR '';''")
      case True
      then have "remaining (skip_whitespace_and_comments s)
          = remaining (skip_whitespace_and_comments (skip_comment (consume (consume s))))"
        using nsp by (subst skip_whitespace_and_comments.simps) simp
      also have "\<dots> \<le> remaining (skip_comment (consume (consume s)))"
        using "1.IH"(2) nsp True by simp
      also have "\<dots> \<le> remaining (consume (consume s))"
        by (rule remaining_skip_comment_le)
      also have "\<dots> \<le> remaining s"
        using remaining_consume_le [of s] remaining_consume_le [of "consume s"] by simp
      finally show ?thesis .
    next
      case False
      then show ?thesis
        using nsp by (subst skip_whitespace_and_comments.simps) auto
    qed
  qed
qed

subsection \<open>Numbers, strings, identifiers\<close>

text \<open>The loop of \<^verbatim>\<open>number_token\<close>; \<open>buf\<close> is the list
    of characters read so far.\<close>

function number_token_loop :: "Lexer \<Rightarrow> string \<Rightarrow> string \<times> Lexer" where
  "number_token_loop s buf =
    (if isdigit (peek s) then number_token_loop (consume s) (buf @ [peek s]) else (buf, s))"
  by pat_completeness auto
termination
  by (relation "measure (\<lambda>(s, buf). remaining s)")
     (auto simp: remaining_consume_peek isdigit_not_nul)

declare number_token_loop.simps [simp del]

definition number_token :: "Lexer \<Rightarrow> int \<Rightarrow> int \<Rightarrow> Token
    \<times> Lexer" where
  "number_token s start_line start_col =
    (case number_token_loop s [] of
       (buf, s') \<Rightarrow> (Token INT_TOK buf start_line start_col, s'))"

text \<open>
  The loop of \<^verbatim>\<open>string_token\<close>, entered after the opening quote is
      consumed. It raises
  when \<^verbatim>\<open>peek\<close> gives the NUL character.
\<close>

function string_token_loop :: "Lexer \<Rightarrow> string \<Rightarrow> int \<Rightarrow> int
    \<Rightarrow> error + string \<times> Lexer" where
  "string_token_loop s buf start_line start_col =
    (let c = peek s
     in if c = CHR 0x00 then Inl (LexerError_unterminated start_line start_col)
        else if c = CHR 0x22 then Inr (buf, consume s)
        else string_token_loop (consume s) (buf @ [c]) start_line start_col)"
  by pat_completeness auto
termination
  by (relation "measure (\<lambda>(s, buf, l, c). remaining s)")
     (auto simp: remaining_consume_peek)

declare string_token_loop.simps [simp del]

definition string_token :: "Lexer \<Rightarrow> int \<Rightarrow> int \<Rightarrow> error +
    Token \<times> Lexer" where
  "string_token s start_line start_col =
    (case string_token_loop (consume s) [] start_line start_col of
       Inl e \<Rightarrow> Inl e
     | Inr (buf, s') \<Rightarrow> Inr (Token STRING buf start_line start_col, s'))"

text \<open>The loop of \<^verbatim>\<open>ident_or_keyword\<close>, entered after the first
    character is taken.\<close>

function ident_or_keyword_loop :: "Lexer \<Rightarrow> string \<Rightarrow> string \<times>
    Lexer" where
  "ident_or_keyword_loop s buf =
    (if is_ident_part (peek s) then ident_or_keyword_loop (consume s) (buf @ [peek s])
     else (buf, s))"
  by pat_completeness auto
termination
  by (relation "measure (\<lambda>(s, buf). remaining s)")
     (auto simp: remaining_consume_peek is_ident_part_not_nul)

declare ident_or_keyword_loop.simps [simp del]

definition ident_or_keyword :: "Lexer \<Rightarrow> int \<Rightarrow> int \<Rightarrow> Token
    \<times> Lexer" where
  "ident_or_keyword s start_line start_col =
    (case ident_or_keyword_loop (consume s) [peek s] of
       (txt, s') \<Rightarrow>
         (if txt = ''if'' then (Token IF txt start_line start_col, s')
          else if txt = ''do'' then (Token DO txt start_line start_col, s')
          else if txt = ''def'' then (Token DEF txt start_line start_col, s')
          else if txt = ''defn'' then (Token DEFN txt start_line start_col, s')
          else if txt = ''let'' then (Token LET txt start_line start_col, s')
          else if txt = ''print'' then (Token PRINT txt start_line start_col, s')
          else if txt = ''str'' then (Token STRFN txt start_line start_col, s')
          else if txt = ''list'' then (Token LISTFN txt start_line start_col, s')
          else if txt = ''nth'' then (Token NTH txt start_line start_col, s')
          else if txt = ''head'' then (Token HEAD txt start_line start_col, s')
          else if txt = ''tail'' then (Token TAIL txt start_line start_col, s')
          else if txt = ''true'' \<or> txt = ''false'' then (Token BOOL txt start_line
              start_col, s')
          else (Token IDENT txt start_line start_col, s')))"

lemma number_token_loop_progress:
  "number_token_loop s buf = (b, s') \<Longrightarrow> text s' = text s \<and> remaining s'
      \<le> remaining s"
proof (induction s buf rule: number_token_loop.induct)
  case (1 s buf)
  show ?case
  proof (cases "isdigit (peek s)")
    case True
    then have "number_token_loop (consume s) (buf @ [peek s]) = (b, s')"
      using "1.prems" by (subst (asm) number_token_loop.simps) simp
    then have "text s' = text (consume s) \<and> remaining s' \<le> remaining (consume s)"
      using "1.IH" True by simp
    then show ?thesis
      using remaining_consume_le [of s] by simp
  next
    case False
    then show ?thesis
      using "1.prems" by (subst (asm) number_token_loop.simps) simp
  qed
qed

lemma number_token_loop_strict:
  "isdigit (peek s) \<Longrightarrow> number_token_loop s buf = (b, s') \<Longrightarrow>
      remaining s' < remaining s"
proof -
  assume d: "isdigit (peek s)" and r: "number_token_loop s buf = (b, s')"
  from d r have "number_token_loop (consume s) (buf @ [peek s]) = (b, s')"
    by (subst (asm) number_token_loop.simps) simp
  then have "remaining s' \<le> remaining (consume s)"
    by (simp add: number_token_loop_progress)
  moreover have "remaining (consume s) < remaining s"
    using d by (simp add: remaining_consume_peek isdigit_not_nul)
  ultimately show ?thesis by simp
qed

lemma string_token_loop_progress:
  "string_token_loop s buf l c = Inr (b, s') \<Longrightarrow> text s' = text s \<and> remaining
      s' \<le> remaining s"
proof (induction s buf l c rule: string_token_loop.induct)
  case (1 s buf l c)
  show ?case
  proof (cases "peek s = CHR 0x00 \<or> peek s = CHR 0x22")
    case True
    then show ?thesis
      using "1.prems" remaining_consume_le [of s]
      by (subst (asm) string_token_loop.simps) (auto simp: Let_def split: if_splits)
  next
    case False
    then have "string_token_loop (consume s) (buf @ [peek s]) l c = Inr (b, s')"
      using "1.prems" by (subst (asm) string_token_loop.simps) (simp add: Let_def)
    then have "text s' = text (consume s) \<and> remaining s' \<le> remaining (consume s)"
      using "1.IH" False by simp
    then show ?thesis
      using remaining_consume_le [of s] by simp
  qed
qed

lemma ident_or_keyword_loop_progress:
  "ident_or_keyword_loop s buf = (b, s') \<Longrightarrow> text s' = text s \<and> remaining s'
      \<le> remaining s"
proof (induction s buf rule: ident_or_keyword_loop.induct)
  case (1 s buf)
  show ?case
  proof (cases "is_ident_part (peek s)")
    case True
    then have "ident_or_keyword_loop (consume s) (buf @ [peek s]) = (b, s')"
      using "1.prems" by (subst (asm) ident_or_keyword_loop.simps) simp
    then have "text s' = text (consume s) \<and> remaining s' \<le> remaining (consume s)"
      using "1.IH" True by simp
    then show ?thesis
      using remaining_consume_le [of s] by simp
  next
    case False
    then show ?thesis
      using "1.prems" by (subst (asm) ident_or_keyword_loop.simps) simp
  qed
qed


text \<open>The kind that \<^verbatim>\<open>ident_or_keyword\<close> gives to a lexeme: its
    chain of comparisons.\<close>

definition keyword_kind :: "string \<Rightarrow> TokenType" where
  "keyword_kind txt =
     (if txt = ''if'' then IF
      else if txt = ''do'' then DO
      else if txt = ''def'' then DEF
      else if txt = ''defn'' then DEFN
      else if txt = ''let'' then LET
      else if txt = ''print'' then PRINT
      else if txt = ''str'' then STRFN
      else if txt = ''list'' then LISTFN
      else if txt = ''nth'' then NTH
      else if txt = ''head'' then HEAD
      else if txt = ''tail'' then TAIL
      else if txt = ''true'' \<or> txt = ''false'' then BOOL
      else IDENT)"

lemma keyword_kind_not_EOF: "keyword_kind txt \<noteq> EOF"
  by (simp add: keyword_kind_def)

lemma ident_or_keyword_eq:
  "ident_or_keyword s l c =
     (case ident_or_keyword_loop (consume s) [peek s] of
        (txt, s') \<Rightarrow> (Token (keyword_kind txt) txt l c, s'))"
  unfolding ident_or_keyword_def keyword_kind_def
  by (simp split: prod.splits)


lemma number_token_progress:
  assumes "number_token s l c = (tok, s')"
  shows "text s' = text s \<and> remaining s' \<le> remaining s \<and> type tok = INT_TOK
     \<and> Token.line tok = l \<and> Token.column tok = c"
proof -
  obtain buf where b: "number_token_loop s [] = (buf, s')" and t: "tok = Token INT_TOK buf l c"
    using assms by (cases "number_token_loop s []") (simp add: number_token_def)
  from number_token_loop_progress [OF b] t show ?thesis by simp
qed

lemma string_token_progress:
  assumes "string_token s l c = Inr (tok, s')"
  shows "text s' = text s \<and> remaining s' \<le> remaining (consume s) \<and> type tok = STRING
     \<and> Token.line tok = l \<and> Token.column tok = c"
proof -
  obtain buf where b: "string_token_loop (consume s) [] l c = Inr (buf, s')"
    and t: "tok = Token STRING buf l c"
    using assms by (auto simp: string_token_def split: prod.splits sum.splits)
  from string_token_loop_progress [OF b] t show ?thesis by simp
qed

lemma ident_or_keyword_progress:
  assumes "ident_or_keyword s l c = (tok, s')"
  shows "text s' = text s \<and> remaining s' \<le> remaining (consume s) \<and> type tok
      \<noteq> EOF
     \<and> Token.line tok = l \<and> Token.column tok = c"
proof -
  obtain w where b: "ident_or_keyword_loop (consume s) [peek s] = (w, s')"
    and t: "tok = Token (keyword_kind w) w l c"
    using assms by (cases "ident_or_keyword_loop (consume s) [peek s]") (simp add:
        ident_or_keyword_eq)
  from ident_or_keyword_loop_progress [OF b] t show ?thesis
    by (simp add: keyword_kind_not_EOF)
qed


subsection \<open>The next token, and all tokens\<close>

text \<open>
  \<^verbatim>\<open>next_token\<close> returns the token together with the lexer state after
      it, or the
  error that is raised.
\<close>

definition next_token :: "Lexer \<Rightarrow> error + Token \<times> Lexer" where
  "next_token s0 =
    (let s = skip_whitespace_and_comments s0;
         start_line = line s;
         start_col = column s;
         c = peek s
     in if c = CHR 0x00 then Inr (Token EOF ''<EOF>'' start_line start_col, s)
        else if c = CHR ''('' then Inr (Token LPAREN ''('' start_line start_col, consume s)
        else if c = CHR '')'' then Inr (Token RPAREN '')'' start_line start_col, consume s)
        else if c = CHR ''+'' then Inr (Token PLUS ''+'' start_line start_col, consume s)
        else if c = CHR ''-'' then Inr (Token MINUS ''-'' start_line start_col, consume s)
        else if c = CHR ''*'' then Inr (Token STAR ''*'' start_line start_col, consume s)
        else if c = CHR ''/'' then Inr (Token SLASH ''/'' start_line start_col, consume s)
        else if c = CHR ''='' then Inr (Token EQ ''='' start_line start_col, consume s)
        else if c = CHR ''<'' then Inr (Token LT ''<'' start_line start_col, consume s)
        else if c = CHR ''>'' then Inr (Token GT ''>'' start_line start_col, consume s)
        else if isdigit c then Inr (number_token s start_line start_col)
        else if c = CHR 0x22 then string_token s start_line start_col
        else if is_ident_start c then Inr (ident_or_keyword s start_line start_col)
        else Inl (LexerError_unexpected c (line s) (column s)))"

lemma next_token_cases:
  assumes "next_token s = Inr (tok, s')"
  shows "(peek (skip_whitespace_and_comments s) = CHR 0x00
            \<and> s' = skip_whitespace_and_comments s
            \<and> tok = Token EOF ''<EOF>'' (line s') (column s'))
       \<or> (peek (skip_whitespace_and_comments s) \<noteq> CHR 0x00
            \<and> s' = consume (skip_whitespace_and_comments s)
            \<and> type tok \<noteq> EOF
            \<and> Token.line tok = line (skip_whitespace_and_comments s)
            \<and> Token.column tok = column (skip_whitespace_and_comments s))
       \<or> (isdigit (peek (skip_whitespace_and_comments s))
            \<and> number_token (skip_whitespace_and_comments s)
                 (line (skip_whitespace_and_comments s))
                 (column (skip_whitespace_and_comments s)) = (tok, s'))
       \<or> (peek (skip_whitespace_and_comments s) = CHR 0x22
            \<and> string_token (skip_whitespace_and_comments s)
                 (line (skip_whitespace_and_comments s))
                 (column (skip_whitespace_and_comments s)) = Inr (tok, s'))
       \<or> (is_ident_start (peek (skip_whitespace_and_comments s))
            \<and> ident_or_keyword (skip_whitespace_and_comments s)
                 (line (skip_whitespace_and_comments s))
                 (column (skip_whitespace_and_comments s)) = (tok, s'))"
  using assms unfolding next_token_def Let_def
  by (auto split: if_splits)


lemma next_token_progress:
  assumes "next_token s = Inr (tok, s')"
  shows "text s' = text s \<and> remaining s' \<le> remaining s
         \<and> (type tok \<noteq> EOF \<longrightarrow> remaining s' < remaining s)"
proof -
  define t where "t = skip_whitespace_and_comments s"
  have t: "text t = text s" "remaining t \<le> remaining s"
    by (simp_all add: t_def remaining_skip_whitespace_and_comments_le)
  consider (eof) "peek t = CHR 0x00" "s' = t" "type tok = EOF"
    | (single) "peek t \<noteq> CHR 0x00" "s' = consume t"
    | (num) "isdigit (peek t)" "number_token t (line t) (column t) = (tok, s')"
    | (str) "peek t = CHR 0x22" "string_token t (line t) (column t) = Inr (tok, s')"
    | (ident) "is_ident_start (peek t)" "ident_or_keyword t (line t) (column t) = (tok, s')"
    using next_token_cases [OF assms] unfolding t_def by auto
  then have "text s' = text t \<and> remaining s' \<le> remaining t
         \<and> (type tok \<noteq> EOF \<longrightarrow> remaining s' < remaining t)"
  proof cases
    case eof
    then show ?thesis by simp
  next
    case single
    then show ?thesis
      using remaining_consume_peek [of t] by simp
  next
    case num
    obtain buf where b: "number_token_loop t [] = (buf, s')"
      using num(2) by (cases "number_token_loop t []") (simp add: number_token_def)
    show ?thesis
      using number_token_loop_progress [OF b] number_token_loop_strict [OF num(1) b] by simp
  next
    case str
    then have "peek t \<noteq> CHR 0x00" by simp
    then show ?thesis
      using string_token_progress [OF str(2)] remaining_consume_peek [of t] by simp
  next
    case ident
    then have "peek t \<noteq> CHR 0x00" by auto
    then show ?thesis
      using ident_or_keyword_progress [OF ident(2)] remaining_consume_peek [of t] by simp
  qed
  then show ?thesis using t by auto
qed

lemma next_token_EOF:
  assumes "next_token s = Inr (tok, s')" and "type tok = EOF"
  shows "s' = skip_whitespace_and_comments s \<and> peek s' = CHR 0x00
         \<and> tok = Token EOF ''<EOF>'' (line s') (column s')"
proof -
  define t where "t = skip_whitespace_and_comments s"
  consider (eof) "peek t = CHR 0x00" "s' = t" "tok = Token EOF ''<EOF>'' (line s') (column s')"
    | (single) "type tok \<noteq> EOF"
    | (num) "number_token t (line t) (column t) = (tok, s')"
    | (str) "string_token t (line t) (column t) = Inr (tok, s')"
    | (ident) "ident_or_keyword t (line t) (column t) = (tok, s')"
    using next_token_cases [OF assms(1)] unfolding t_def by auto
  then show ?thesis
  proof cases
    case eof
    then show ?thesis by (simp add: t_def)
  next
    case single
    then show ?thesis using assms(2) by simp
  next
    case num
    then show ?thesis using number_token_progress [OF num] assms(2) by simp
  next
    case str
    then show ?thesis using string_token_progress [OF str] assms(2) by simp
  next
    case ident
    then show ?thesis using ident_or_keyword_progress [OF ident] assms(2) by simp
  qed
qed

text \<open>\<^verbatim>\<open>tokenize\<close>: the loop appends each token and stops after the
    first \<^verbatim>\<open>EOF\<close>.\<close>

function tokenize_loop :: "Lexer \<Rightarrow> Token list \<Rightarrow> error + Token list
    \<times> Lexer" where
  "tokenize_loop s tokens =
    (case next_token s of
       Inl e \<Rightarrow> Inl e
     | Inr (tok, s') \<Rightarrow>
         (if type tok = EOF then Inr (tokens @ [tok], s')
          else tokenize_loop s' (tokens @ [tok])))"
  by pat_completeness auto
termination
  by (relation "measure (\<lambda>(s, tokens). remaining s)") (auto dest: next_token_progress)

declare tokenize_loop.simps [simp del]

definition tokenize :: "Lexer \<Rightarrow> error + Token list \<times> Lexer" where
  "tokenize s = tokenize_loop s []"


text \<open>The errors that the lexer raises.\<close>

fun is_lexer_error :: "error \<Rightarrow> bool" where
  "is_lexer_error (LexerError_unexpected c l k) = True"
| "is_lexer_error (LexerError_unterminated l k) = True"
| "is_lexer_error (ParserError m t) = False"

section \<open>Syntax trees and parser state (parser.py)\<close>

text \<open>
  The dataclass \<^verbatim>\<open>Node(kind, value, children)\<close>; the field
      \<^verbatim>\<open>value\<close> is written
  \<open>node_value\<close>. A node built without children has the empty list.
\<close>

datatype Node = Node (kind: string) (node_value: "string option") (children: "Node list")

text \<open>The fields of \<^verbatim>\<open>class Parser\<close>: the lexer and the lookahead
    token.\<close>

record Parser =
  lexer :: Lexer
  lookahead :: Token

text \<open>\<^verbatim>\<open>Parser.__init__\<close> reads the first token, which may
    raise.\<close>

definition Parser_init :: "Lexer \<Rightarrow> error + Parser" where
  "Parser_init lx =
    (case next_token lx of
       Inl e \<Rightarrow> Inl e
     | Inr (tok, lx') \<Rightarrow> Inr \<lparr>lexer = lx', lookahead = tok\<rparr>)"

text \<open>\<^verbatim>\<open>Parser.consume\<close>\<close>

definition consume_parser :: "Parser \<Rightarrow> error + Parser" where
  "consume_parser p =
    (case next_token (lexer p) of
       Inl e \<Rightarrow> Inl e
     | Inr (tok, lx') \<Rightarrow> Inr (p\<lparr>lexer := lx', lookahead := tok\<rparr>))"

text \<open>\<^verbatim>\<open>Parser.error\<close> always raises.\<close>

definition error :: "string \<Rightarrow> Token \<Rightarrow> error + 'a" where
  "error msg token = Inl (ParserError msg token)"

text \<open>\<^verbatim>\<open>Parser.match\<close>\<close>

definition match :: "Parser \<Rightarrow> TokenType \<Rightarrow> error + Token \<times> Parser"
    where
  "match p expected_type =
    (if type (lookahead p) = expected_type
     then (let tok = lookahead p
           in case consume_parser p of
                Inl e \<Rightarrow> Inl e
              | Inr p' \<Rightarrow> Inr (tok, p'))
     else error (''erwartet '' @ name expected_type) (lookahead p))"

subsection \<open>Atoms\<close>

definition parse_atom :: "Parser \<Rightarrow> error + Node \<times> Parser" where
  "parse_atom p =
    (let tok = lookahead p
     in if type tok = INT_TOK then
          (case consume_parser p of
             Inl e \<Rightarrow> Inl e
           | Inr p' \<Rightarrow> Inr (Node ''IntLiteral'' (Some (lexeme tok)) [], p'))
        else if type tok = STRING then
          (case consume_parser p of
             Inl e \<Rightarrow> Inl e
           | Inr p' \<Rightarrow> Inr (Node ''StringLiteral'' (Some (lexeme tok)) [], p'))
        else if type tok = BOOL then
          (case consume_parser p of
             Inl e \<Rightarrow> Inl e
           | Inr p' \<Rightarrow> Inr (Node ''BoolLiteral'' (Some (lexeme tok)) [], p'))
        else if type tok = IDENT then
          (case consume_parser p of
             Inl e \<Rightarrow> Inl e
           | Inr p' \<Rightarrow> Inr (Node ''Identifier'' (Some (lexeme tok)) [], p'))
        else error ''Atom erwartet'' tok)"

subsection \<open>The parameter loop of a function definition\<close>

text \<open>
  The loop of \<^verbatim>\<open>parse_defn_expr\<close> that collects the parameters. It only
      reads tokens, and
  every round reads one that is not \<^verbatim>\<open>EOF\<close>, so it terminates.
\<close>

definition parser_measure :: "Parser \<Rightarrow> nat" where
  "parser_measure p = remaining (lexer p) + (if type (lookahead p) = EOF then 0 else 1)"

lemma consume_parser_measure:
  assumes "consume_parser p = Inr p'" and "type (lookahead p) \<noteq> EOF"
  shows "parser_measure p' < parser_measure p"
proof -
  obtain tok lx' where nt: "next_token (lexer p) = Inr (tok, lx')"
    and p': "p' = p\<lparr>lexer := lx', lookahead := tok\<rparr>"
    using assms(1) by (auto simp: consume_parser_def split: sum.splits)
  from next_token_progress [OF nt] assms(2) p' show ?thesis
    by (auto simp: parser_measure_def)
qed

function parse_defn_expr_params :: "Parser \<Rightarrow> Node list \<Rightarrow> error + Node
    list \<times> Parser" where
  "parse_defn_expr_params p params =
    (if type (lookahead p) = IDENT
     then (case consume_parser p of
             Inl e \<Rightarrow> Inl e
           | Inr p' \<Rightarrow>
               parse_defn_expr_params p'
                 (params @ [Node ''Param'' (Some (lexeme (lookahead p))) []]))
     else Inr (params, p))"
  by pat_completeness auto
termination
  by (relation "measure (\<lambda>(p, params). parser_measure p)")
     (auto intro: consume_parser_measure)

declare parse_defn_expr_params.simps [simp del]

subsection \<open>Expressions and forms\<close>

text \<open>
  The recursive descent. The methods call one another, and how deep they go depends on
  the tokens that the lexer delivers, so each function takes a bound on the depth of the
  calls still allowed (its first argument). A result \<open>None\<close> means that the bound was
  reached, \<open>Some (Inl e)\<close> that the exception \<open>e\<close> was raised, and
  \<open>Some (Inr (node, p))\<close> that \<open>node\<close> was returned with the parser left
      in state
  \<open>p\<close>. Each \<^verbatim>\<open>while\<close> loop is a function of its own, with
      the list built so far
  as an argument.

  \<open>bind m f\<close> is sequencing: it runs \<open>f\<close> on the value that
      \<open>m\<close> returned, and
  passes on an exception of \<open>m\<close> or the reached bound.
\<close>

definition bind ::
  "(error + 'a) option \<Rightarrow> ('a \<Rightarrow> (error + 'b) option) \<Rightarrow> (error
      + 'b) option" where
  "bind m f =
    (case m of
       None \<Rightarrow> None
     | Some (Inl e) \<Rightarrow> Some (Inl e)
     | Some (Inr x) \<Rightarrow> f x)"

function parse_expr :: "nat \<Rightarrow> Parser \<Rightarrow> (error + Node \<times> Parser)
    option"
  and parse_list_expr :: "nat \<Rightarrow> Parser \<Rightarrow> (error + Node \<times> Parser)
      option"
  and parse_form :: "nat \<Rightarrow> Parser \<Rightarrow> (error + Node \<times> Parser) option"
  and parse_if_expr :: "nat \<Rightarrow> Parser \<Rightarrow> (error + Node \<times> Parser)
      option"
  and parse_do_expr :: "nat \<Rightarrow> Parser \<Rightarrow> (error + Node \<times> Parser)
      option"
  and parse_do_expr_loop ::
    "nat \<Rightarrow> Parser \<Rightarrow> Node list \<Rightarrow> (error + Node list \<times>
        Parser) option"
  and parse_def_expr :: "nat \<Rightarrow> Parser \<Rightarrow> (error + Node \<times> Parser)
      option"
  and parse_defn_expr :: "nat \<Rightarrow> Parser \<Rightarrow> (error + Node \<times> Parser)
      option"
  and parse_let_expr :: "nat \<Rightarrow> Parser \<Rightarrow> (error + Node \<times> Parser)
      option"
  and parse_let_expr_loop ::
    "nat \<Rightarrow> Parser \<Rightarrow> Node list \<Rightarrow> (error + Node list \<times>
        Parser) option"
  and parse_app_expr :: "nat \<Rightarrow> Parser \<Rightarrow> (error + Node \<times> Parser)
      option"
  and parse_app_expr_loop ::
    "nat \<Rightarrow> Parser \<Rightarrow> Node list \<Rightarrow> (error + Node list \<times>
        Parser) option"
where
  "parse_expr 0 p = None"
| "parse_expr (Suc n) p =
    (let t = type (lookahead p)
     in if t \<in> set [INT_TOK, STRING, BOOL, IDENT] then Some (parse_atom p)
        else if t = LPAREN then parse_list_expr n p
        else Some (error ''Ausdruck erwartet'' (lookahead p)))"
| "parse_list_expr 0 p = None"
| "parse_list_expr (Suc n) p =
    bind (Some (match p LPAREN)) (\<lambda>(lp, p1).
    bind (parse_form n p1) (\<lambda>(inside, p2).
    bind (Some (match p2 RPAREN)) (\<lambda>(rp, p3).
    Some (Inr (Node ''ListExpr'' None [inside], p3)))))"
| "parse_form 0 p = None"
| "parse_form (Suc n) p =
    (let t = type (lookahead p)
     in if t = IF then parse_if_expr n p
        else if t = DO then parse_do_expr n p
        else if t = DEF then parse_def_expr n p
        else if t = DEFN then parse_defn_expr n p
        else if t = LET then parse_let_expr n p
        else parse_app_expr n p)"
| "parse_if_expr 0 p = None"
| "parse_if_expr (Suc n) p =
    bind (Some (match p IF)) (\<lambda>(kw, p1).
    bind (parse_expr n p1) (\<lambda>(cond, p2).
    bind (parse_expr n p2) (\<lambda>(then_branch, p3).
    if type (lookahead p3) \<noteq> RPAREN
    then bind (parse_expr n p3) (\<lambda>(else_branch, p4).
           Some (Inr (Node ''IfExpr'' None [cond, then_branch, else_branch], p4)))
    else Some (Inr (Node ''IfExpr'' None [cond, then_branch], p3)))))"
| "parse_do_expr 0 p = None"
| "parse_do_expr (Suc n) p =
    bind (Some (match p DO)) (\<lambda>(kw, p1).
    if type (lookahead p1) = RPAREN
    then Some (error ''mindestens einen Ausdruck erwartet'' (lookahead p1))
    else bind (parse_do_expr_loop n p1 []) (\<lambda>(exprs, p2).
           Some (Inr (Node ''DoExpr'' None exprs, p2))))"
| "parse_do_expr_loop 0 p exprs = None"
| "parse_do_expr_loop (Suc n) p exprs =
    (if type (lookahead p) \<notin> set [RPAREN, EOF]
     then bind (parse_expr n p) (\<lambda>(x, p'). parse_do_expr_loop n p' (exprs @ [x]))
     else Some (Inr (exprs, p)))"
| "parse_def_expr 0 p = None"
| "parse_def_expr (Suc n) p =
    bind (Some (match p DEF)) (\<lambda>(kw, p1).
    bind (Some (match p1 IDENT)) (\<lambda>(name_tok, p2).
    bind (parse_expr n p2) (\<lambda>(v, p3).
    Some (Inr (Node ''DefExpr'' (Some (lexeme name_tok)) [v], p3)))))"
| "parse_defn_expr 0 p = None"
| "parse_defn_expr (Suc n) p =
    bind (Some (match p DEFN)) (\<lambda>(kw, p1).
    bind (Some (match p1 IDENT)) (\<lambda>(name_tok, p2).
    bind (Some (match p2 LPAREN)) (\<lambda>(lp, p3).
    bind (Some (parse_defn_expr_params p3 [])) (\<lambda>(params, p4).
    bind (Some (match p4 RPAREN)) (\<lambda>(rp, p5).
    bind (parse_expr n p5) (\<lambda>(body, p6).
    let param_node = Node ''ParamList'' None params
    in Some (Inr (Node ''DefnExpr'' (Some (lexeme name_tok)) [param_node, body], p6))))))))"
| "parse_let_expr 0 p = None"
| "parse_let_expr (Suc n) p =
    bind (Some (match p LET)) (\<lambda>(kw, p1).
    bind (Some (match p1 LPAREN)) (\<lambda>(lp, p2).
    bind (parse_let_expr_loop n p2 []) (\<lambda>(bindings, p3).
    bind (Some (match p3 RPAREN)) (\<lambda>(rp, p4).
    bind (parse_expr n p4) (\<lambda>(body, p5).
    Some (Inr (Node ''LetExpr'' None [Node ''LetBindings'' None bindings, body], p5)))))))"
| "parse_let_expr_loop 0 p bindings = None"
| "parse_let_expr_loop (Suc n) p bindings =
    (if type (lookahead p) = IDENT
     then (let nm = lexeme (lookahead p)
           in bind (Some (consume_parser p)) (\<lambda>p1.
              bind (parse_expr n p1) (\<lambda>(v, p2).
              parse_let_expr_loop n p2 (bindings @ [Node ''LetBinding'' (Some nm) [v]]))))
     else Some (Inr (bindings, p)))"
| "parse_app_expr 0 p = None"
| "parse_app_expr (Suc n) p =
    (let opr = lookahead p
     in if type opr \<notin> set [PLUS, MINUS, STAR, SLASH, EQ, LT, GT,
                             PRINT, STRFN, LISTFN, NTH, HEAD, TAIL, IDENT]
        then Some (error ''Operator oder Funktionsname erwartet'' opr)
        else bind (Some (consume_parser p)) (\<lambda>p1.
             bind (parse_app_expr_loop n p1 []) (\<lambda>(args, p2).
             Some (Inr (Node ''AppExpr'' (Some (lexeme opr)) args, p2)))))"
| "parse_app_expr_loop 0 p args = None"
| "parse_app_expr_loop (Suc n) p args =
    (if type (lookahead p) \<notin> set [RPAREN, EOF]
     then bind (parse_expr n p) (\<lambda>(x, p'). parse_app_expr_loop n p' (args @ [x]))
     else Some (Inr (args, p)))"
  by pat_completeness auto

text \<open>The bound, the first argument of each function, is smaller in every call.\<close>

termination
  by (relation "measure
        (case_sum
          (case_sum (case_sum fst (case_sum fst fst)) (case_sum fst (case_sum fst fst)))
          (case_sum (case_sum fst (case_sum fst fst)) (case_sum fst (case_sum fst fst))))")
     simp_all

subsection \<open>Programs\<close>

text \<open>The loop of \<^verbatim>\<open>parse\<close>, with the same bound, and
    \<^verbatim>\<open>parse\<close> itself.\<close>

fun parse_loop :: "nat \<Rightarrow> Parser \<Rightarrow> Node list \<Rightarrow> (error + Node)
    option" where
  "parse_loop 0 p exprs = None"
| "parse_loop (Suc n) p exprs =
    (if type (lookahead p) \<noteq> EOF
     then bind (parse_expr n p) (\<lambda>(x, p'). parse_loop n p' (exprs @ [x]))
     else Some (Inr (Node ''Program'' None exprs)))"

definition parse :: "nat \<Rightarrow> Parser \<Rightarrow> (error + Node) option" where
  "parse n p = parse_loop n p []"

text \<open>
  Parsing a text as the test run of the source does:
  \<^verbatim>\<open>Parser(Lexer(code)).parse()\<close>.
\<close>

definition parse_text :: "nat \<Rightarrow> string \<Rightarrow> (error + Node) option" where
  "parse_text n code =
    (case Parser_init (Lexer_init code) of
       Inl e \<Rightarrow> Some (Inl e)
     | Inr p \<Rightarrow> parse n p)"

section \<open>Properties of the lexer\<close>

lemma string_token_loop_error:
  "string_token_loop s buf l c = Inl e \<Longrightarrow> e = LexerError_unterminated l c"
proof (induction s buf l c rule: string_token_loop.induct)
  case (1 s buf l c)
  show ?case
  proof (cases "peek s = CHR 0x00 \<or> peek s = CHR 0x22")
    case True
    then show ?thesis
      using "1.prems"
      by (subst (asm) string_token_loop.simps) (auto simp: Let_def split: if_splits)
  next
    case False
    then have "string_token_loop (consume s) (buf @ [peek s]) l c = Inl e"
      using "1.prems" by (subst (asm) string_token_loop.simps) (simp add: Let_def)
    then show ?thesis
      using "1.IH" False by simp
  qed
qed

lemma string_token_error:
  "string_token s l c = Inl e \<Longrightarrow> e = LexerError_unterminated l c"
  by (auto simp: string_token_def split: sum.splits dest: string_token_loop_error)

lemma next_token_error:
  assumes "next_token s = Inl e"
  shows "is_lexer_error e"
proof -
  define t where "t = skip_whitespace_and_comments s"
  have "string_token t (line t) (column t) = Inl e \<or> e = LexerError_unexpected (peek t)
      (line t) (column t)"
    using assms unfolding next_token_def Let_def t_def
    by (simp split: if_splits)
  then show ?thesis
    by (auto dest: string_token_error)
qed

lemma tokenize_loop_result:
  "tokenize_loop s acc = Inr (toks, s') \<Longrightarrow>
     toks \<noteq> [] \<and> type (last toks) = EOF
     \<and> filter (\<lambda>t. type t = EOF) toks = filter (\<lambda>t. type t = EOF) acc @
         [last toks]"
proof (induction s acc rule: tokenize_loop.induct)
  case (1 s acc)
  have u: "(case next_token s of
       Inl e \<Rightarrow> Inl e
     | Inr (tok, s1) \<Rightarrow>
         (if type tok = EOF then Inr (acc @ [tok], s1)
          else tokenize_loop s1 (acc @ [tok]))) = Inr (toks, s')"
    using "1.prems" by (simp add: tokenize_loop.simps [of s acc])
  then obtain tok s1 where nt: "next_token s = Inr (tok, s1)"
    by (cases "next_token s") auto
  show ?case
  proof (cases "type tok = EOF")
    case True
    then have "toks = acc @ [tok]"
      using u nt by simp
    with True show ?thesis by simp
  next
    case False
    then have "tokenize_loop s1 (acc @ [tok]) = Inr (toks, s')"
      using u nt by simp
    from "1.IH" [OF nt refl False this] False show ?thesis
      by simp
  qed
qed

lemma tokenize_loop_error:
  "tokenize_loop s acc = Inl e \<Longrightarrow> is_lexer_error e"
proof (induction s acc rule: tokenize_loop.induct)
  case (1 s acc)
  have u: "(case next_token s of
       Inl e \<Rightarrow> Inl e
     | Inr (tok, s1) \<Rightarrow>
         (if type tok = EOF then Inr (acc @ [tok], s1)
          else tokenize_loop s1 (acc @ [tok]))) = Inl e"
    using "1.prems" by (simp add: tokenize_loop.simps [of s acc])
  show ?case
  proof (cases "next_token s")
    case (Inl e')
    then show ?thesis
      using u next_token_error [of s e'] by simp
  next
    case (Inr r)
    obtain tok s1 where r: "r = (tok, s1)" by (cases r)
    have ne: "type tok \<noteq> EOF"
      using u Inr r by (auto split: if_splits)
    then have "tokenize_loop s1 (acc @ [tok]) = Inl e"
      using u Inr r by simp
    from "1.IH" [OF Inr r [symmetric] ne this] show ?thesis .
  qed
qed

text \<open>
  C1. \<^verbatim>\<open>tokenize\<close> is a total function: for every lexer state, and so for
      every input
  text, it either raises a lexical error (and returns no tokens) or returns a non-empty
  list of tokens whose last element is an \<^verbatim>\<open>EOF\<close> token, the only
      \<^verbatim>\<open>EOF\<close> token of
  the list.
\<close>

theorem tokenize_single_final_EOF:
  "case tokenize s of
     Inl e \<Rightarrow> is_lexer_error e
   | Inr (toks, s') \<Rightarrow>
       toks \<noteq> [] \<and> type (last toks) = EOF
       \<and> length (filter (\<lambda>t. type t = EOF) toks) = 1"
proof (cases "tokenize s")
  case (Inl e)
  then show ?thesis
    using tokenize_loop_error [of s "[]" e] by (simp add: tokenize_def)
next
  case (Inr r)
  obtain toks s' where r: "r = (toks, s')" by (cases r)
  have "tokenize_loop s [] = Inr (toks, s')"
    using Inr r by (simp add: tokenize_def)
  from tokenize_loop_result [OF this] show ?thesis
    using Inr r by simp
qed


theorem tokenize_single_final_EOF_witness:
  "case tokenize (Lexer_init ''(+ 1 2'') of
     Inl e \<Rightarrow> is_lexer_error e
   | Inr (toks, s') \<Rightarrow>
       toks \<noteq> [] \<and> type (last toks) = EOF
       \<and> length (filter (\<lambda>t. type t = EOF) toks) = 1"
  by (rule tokenize_single_final_EOF)

lemma skip_whitespace_and_comments_at_nul:
  "peek s = CHR 0x00 \<Longrightarrow> skip_whitespace_and_comments s = s"
  by (subst skip_whitespace_and_comments.simps) (simp add: is_space_def)

lemma next_token_at_nul:
  "peek (skip_whitespace_and_comments s) = CHR 0x00 \<Longrightarrow>
     next_token s = Inr (Token EOF ''<EOF>'' (line (skip_whitespace_and_comments s))
                          (column (skip_whitespace_and_comments s)),
                         skip_whitespace_and_comments s)"
  by (simp add: next_token_def Let_def)

text \<open>
  C10. Once \<^verbatim>\<open>next_token\<close> has returned an \<^verbatim>\<open>EOF\<close>
      token, calling it again on the
  state it left raises nothing and returns the same \<^verbatim>\<open>EOF\<close> token (same
      line and
  column), and the lexer state (\<^verbatim>\<open>pos\<close>, \<^verbatim>\<open>line\<close>,
      \<^verbatim>\<open>column\<close>) stays as it was.
\<close>

theorem next_token_after_EOF:
  assumes "next_token s = Inr (tok, s')" and "type tok = EOF"
  shows "next_token s' = Inr (tok, s')"
proof -
  from next_token_EOF [OF assms]
  have s': "s' = skip_whitespace_and_comments s" and nul: "peek s' = CHR 0x00"
    and tok: "tok = Token EOF ''<EOF>'' (line s') (column s')"
    by blast+
  have "skip_whitespace_and_comments s' = s'"
    using nul by (rule skip_whitespace_and_comments_at_nul)
  then show ?thesis
    using next_token_at_nul [of s'] nul tok by simp
qed

theorem next_token_after_EOF_witness:
  "next_token (Lexer_init ''a  '') = Inr (Token IDENT ''a'' 1 1, \<lparr>text = ''a  '', pos =
      1, line = 1, column = 2\<rparr>)
   \<and> next_token \<lparr>text = ''a  '', pos = 1, line = 1, column = 2\<rparr>
      = Inr (Token EOF ''<EOF>'' 1 4, \<lparr>text = ''a  '', pos = 3, line = 1, column = 4\<rparr>)
   \<and> type (Token EOF ''<EOF>'' 1 4) = EOF
   \<and> next_token \<lparr>text = ''a  '', pos = 3, line = 1, column = 4\<rparr>
      = Inr (Token EOF ''<EOF>'' 1 4, \<lparr>text = ''a  '', pos = 3, line = 1, column =
          4\<rparr>)"
proof -
  have a: "next_token (Lexer_init ''a  '') = Inr (Token IDENT ''a'' 1 1, \<lparr>text = ''a  '',
      pos = 1, line = 1, column = 2\<rparr>)"
    by code_simp
  have b: "next_token \<lparr>text = ''a  '', pos = 1, line = 1, column = 2\<rparr>
      = Inr (Token EOF ''<EOF>'' 1 4, \<lparr>text = ''a  '', pos = 3, line = 1, column =
          4\<rparr>)"
    by code_simp
  have c: "type (Token EOF ''<EOF>'' 1 4) = EOF" by simp
  from a b c next_token_after_EOF [OF b c] show ?thesis by simp
qed

lemma pos_consume: "pos s < length (text s) \<Longrightarrow> pos (consume s) = Suc (pos s)"
  by (simp add: consume_def Let_def)

lemma peek_in_range: "pos s < length (text s) \<Longrightarrow> peek s = text s ! pos s"
  by (simp add: peek_def)

lemma drop_pos_Cons:
  "pos s < length (text s) \<Longrightarrow> drop (pos s) (text s) = peek s # drop (Suc (pos s))
      (text s)"
  by (simp add: peek_def Cons_nth_drop_Suc)

lemma drop_pos_consume:
  "pos s < length (text s) \<Longrightarrow> drop (pos s) (text s) = peek s # drop (pos (consume
      s)) (text s)"
  by (simp add: drop_pos_Cons pos_consume)

lemma string_token_loop_unterminated:
  "CHR 0x22 \<notin> set (drop (pos s) (text s)) \<Longrightarrow>
     string_token_loop s buf l c = Inl (LexerError_unterminated l c)"
proof (induction s buf l c rule: string_token_loop.induct)
  case (1 s buf l c)
  show ?case
  proof (cases "peek s = CHR 0x00")
    case True
    then show ?thesis
      by (subst string_token_loop.simps) (simp add: Let_def)
  next
    case False
    then have r: "pos s < length (text s)"
      by (rule peek_not_nul_in_range)
    from drop_pos_consume [OF r] "1.prems"
    have q: "peek s \<noteq> CHR 0x22" and rest: "CHR 0x22 \<notin> set (drop (pos (consume s))
        (text (consume s)))"
      by auto
    have "string_token_loop s buf l c = string_token_loop (consume s) (buf @ [peek s]) l c"
      using False q by (subst string_token_loop.simps) (simp add: Let_def)
    also have "\<dots> = Inl (LexerError_unterminated l c)"
      using "1.IH" [OF refl False q rest] .
    finally show ?thesis .
  qed
qed

text \<open>
  C5. When the next token starts with a double quote and no further double quote follows
  in the text, so that the end of the input is reached inside the string literal,
  \<^verbatim>\<open>next_token\<close> raises the lexical error for an unterminated string, and
      the line and
  column it reports are those of the lexer when it stands on the opening quote.
\<close>

theorem unterminated_string_reports_start:
  assumes "peek (skip_whitespace_and_comments s) = CHR 0x22"
    and "CHR 0x22 \<notin> set (drop (Suc (pos (skip_whitespace_and_comments s))) (text s))"
  shows "next_token s =
           Inl (LexerError_unterminated (line (skip_whitespace_and_comments s))
                                        (column (skip_whitespace_and_comments s)))"
proof -
  define t where "t = skip_whitespace_and_comments s"
  have q: "peek t = CHR 0x22" and tt: "text t = text s"
    using assms(1) by (simp_all add: t_def)
  then have "peek t \<noteq> CHR 0x00" by simp
  then have "pos (consume t) = Suc (pos t)"
    by (simp add: peek_not_nul_in_range pos_consume)
  then have "CHR 0x22 \<notin> set (drop (pos (consume t)) (text (consume t)))"
    using assms(2) tt by (simp add: t_def)
  then have "string_token t (line t) (column t) = Inl (LexerError_unterminated (line t) (column t))"
    by (simp add: string_token_def string_token_loop_unterminated)
  moreover have "next_token s = string_token t (line t) (column t)"
    using q by (simp add: next_token_def Let_def t_def isdigit_def)
  ultimately show ?thesis
    by (simp add: t_def)
qed

theorem unterminated_string_reports_start_witness:
  "peek (skip_whitespace_and_comments (Lexer_init [CHR 0x0A, CHR '' '', CHR 0x22, CHR ''a'', CHR
      ''b'', CHR ''c''])) = CHR 0x22
   \<and> CHR 0x22 \<notin> set (drop (Suc (pos (skip_whitespace_and_comments
          (Lexer_init [CHR 0x0A, CHR '' '', CHR 0x22, CHR ''a'', CHR ''b'', CHR ''c'']))))
          (text (Lexer_init [CHR 0x0A, CHR '' '', CHR 0x22, CHR ''a'', CHR ''b'', CHR ''c''])))
   \<and> next_token (Lexer_init [CHR 0x0A, CHR '' '', CHR 0x22, CHR ''a'', CHR ''b'', CHR ''c''])
       = Inl (LexerError_unterminated 2 2)"
proof -
  have a: "peek (skip_whitespace_and_comments
      (Lexer_init [CHR 0x0A, CHR '' '', CHR 0x22, CHR ''a'', CHR ''b'', CHR ''c''])) = CHR 0x22"
    by code_simp
  have b: "CHR 0x22 \<notin> set (drop (Suc (pos (skip_whitespace_and_comments
          (Lexer_init [CHR 0x0A, CHR '' '', CHR 0x22, CHR ''a'', CHR ''b'', CHR ''c'']))))
          (text (Lexer_init [CHR 0x0A, CHR '' '', CHR 0x22, CHR ''a'', CHR ''b'', CHR ''c''])))"
    by code_simp
  have c: "line (skip_whitespace_and_comments
      (Lexer_init [CHR 0x0A, CHR '' '', CHR 0x22, CHR ''a'', CHR ''b'', CHR ''c''])) = 2"
    "column (skip_whitespace_and_comments
      (Lexer_init [CHR 0x0A, CHR '' '', CHR 0x22, CHR ''a'', CHR ''b'', CHR ''c''])) = 2"
    by code_simp+
  from unterminated_string_reports_start [OF a b] a b show ?thesis
    by (simp add: c)
qed

lemma next_token_position:
  assumes "next_token s = Inr (tok, s')"
  shows "Token.line tok = line (skip_whitespace_and_comments s)
         \<and> Token.column tok = column (skip_whitespace_and_comments s)"
proof -
  define t where "t = skip_whitespace_and_comments s"
  consider (eof) "s' = t" "tok = Token EOF ''<EOF>'' (line s') (column s')"
    | (single) "Token.line tok = line t" "Token.column tok = column t"
    | (num) "number_token t (line t) (column t) = (tok, s')"
    | (str) "string_token t (line t) (column t) = Inr (tok, s')"
    | (ident) "ident_or_keyword t (line t) (column t) = (tok, s')"
    using next_token_cases [OF assms] unfolding t_def by auto
  then have "Token.line tok = line t \<and> Token.column tok = column t"
  proof cases
    case eof
    then show ?thesis by simp
  next
    case single
    then show ?thesis by simp
  next
    case num
    then show ?thesis using number_token_progress [OF num] by simp
  next
    case str
    then show ?thesis using string_token_progress [OF str] by simp
  next
    case ident
    then show ?thesis using ident_or_keyword_progress [OF ident] by simp
  qed
  then show ?thesis by (simp add: t_def)
qed

lemma skip_whitespace_and_comments_stops:
  "\<not> is_space (peek (skip_whitespace_and_comments s))
   \<and> \<not> (peek (skip_whitespace_and_comments s) = CHR '';''
          \<and> peek_next (skip_whitespace_and_comments s) = CHR '';'')"
proof (induction s rule: skip_whitespace_and_comments.induct)
  case (1 s)
  show ?case
  proof (cases "is_space (peek s)")
    case True
    then have "skip_whitespace_and_comments s = skip_whitespace_and_comments (consume s)"
      by (subst skip_whitespace_and_comments.simps) simp
    then show ?thesis
      using "1.IH"(1) [OF True] by simp
  next
    case nsp: False
    show ?thesis
    proof (cases "peek s = CHR '';'' \<and> peek_next s = CHR '';''")
      case True
      then have "skip_whitespace_and_comments s
          = skip_whitespace_and_comments (skip_comment (consume (consume s)))"
        using nsp by (subst skip_whitespace_and_comments.simps) simp
      then show ?thesis
        using "1.IH"(2) [OF nsp True] by simp
    next
      case False
      then have "skip_whitespace_and_comments s = s"
        using nsp by (subst skip_whitespace_and_comments.simps) auto
      then show ?thesis
        using nsp False by simp
    qed
  qed
qed

lemma skip_whitespace_and_comments_idem:
  "skip_whitespace_and_comments (skip_whitespace_and_comments s) = skip_whitespace_and_comments s"
  using skip_whitespace_and_comments_stops [of s]
  by (subst skip_whitespace_and_comments.simps) auto

lemma next_token_skip:
  "next_token (skip_whitespace_and_comments s) = next_token s"
  by (simp add: next_token_def skip_whitespace_and_comments_idem)

text \<open>
  C8. Consuming a character that is not a newline adds 1 to the column and leaves the
  line; consuming a newline adds 1 to the line and sets the column to 1; either way the
  position moves on by one character. The line and column of a token are those of the
  lexer after white space and comments are skipped, before any character of the token
  is consumed: the characters of the token are read from that state on. For the text of two
      newlines, two spaces and an opening parenthesis, the
  parenthesis token carries line 3 and column 3.
\<close>

theorem position_tracking:
  "(pos s < length (text s) \<longrightarrow>
      consume s =
        (if text s ! pos s = CHR 0x0A
         then s\<lparr>pos := pos s + 1, line := line s + 1, column := 1\<rparr>
         else s\<lparr>pos := pos s + 1, column := column s + 1\<rparr>))
   \<and> (next_token s = Inr (tok, s') \<longrightarrow>
        Token.line tok = line (skip_whitespace_and_comments s)
        \<and> Token.column tok = column (skip_whitespace_and_comments s)
        \<and> (type tok \<noteq> EOF \<longrightarrow> remaining s' < remaining
            (skip_whitespace_and_comments s)))
   \<and> next_token (Lexer_init [CHR 0x0A, CHR 0x0A, CHR '' '', CHR '' '', CHR ''(''])
       = Inr (Token LPAREN ''('' 3 3,
              \<lparr>text = [CHR 0x0A, CHR 0x0A, CHR '' '', CHR '' '', CHR ''(''],
               pos = 5, line = 3, column = 4\<rparr>)"
proof (intro conjI impI)
  assume "pos s < length (text s)"
  then show "consume s =
        (if text s ! pos s = CHR 0x0A
         then s\<lparr>pos := pos s + 1, line := line s + 1, column := 1\<rparr>
         else s\<lparr>pos := pos s + 1, column := column s + 1\<rparr>)"
    by (simp add: consume_def Let_def)
next
  assume "next_token s = Inr (tok, s')"
  then show "Token.line tok = line (skip_whitespace_and_comments s)"
    by (simp add: next_token_position)
next
  assume "next_token s = Inr (tok, s')"
  then show "Token.column tok = column (skip_whitespace_and_comments s)"
    by (simp add: next_token_position)
next
  assume "next_token s = Inr (tok, s')" and "type tok \<noteq> EOF"
  then show "remaining s' < remaining (skip_whitespace_and_comments s)"
    using next_token_progress [of "skip_whitespace_and_comments s" tok s']
    by (simp add: next_token_skip)
next
  show "next_token (Lexer_init [CHR 0x0A, CHR 0x0A, CHR '' '', CHR '' '', CHR ''(''])
       = Inr (Token LPAREN ''('' 3 3,
              \<lparr>text = [CHR 0x0A, CHR 0x0A, CHR '' '', CHR '' '', CHR ''(''],
               pos = 5, line = 3, column = 4\<rparr>)"
    by code_simp
qed


theorem position_tracking_witness:
  "pos (Lexer_init [CHR 0x0A, CHR ''a'']) < length (text (Lexer_init [CHR 0x0A, CHR ''a'']))
   \<and> consume (Lexer_init [CHR 0x0A, CHR ''a''])
       = \<lparr>text = [CHR 0x0A, CHR ''a''], pos = 1, line = 2, column = 1\<rparr>
   \<and> next_token (Lexer_init [CHR 0x0A, CHR ''a''])
       = Inr (Token IDENT ''a'' 2 1, \<lparr>text = [CHR 0x0A, CHR ''a''], pos = 2, line = 2,
           column = 2\<rparr>)
   \<and> type (Token IDENT ''a'' 2 1) \<noteq> EOF
   \<and> line (skip_whitespace_and_comments (Lexer_init [CHR 0x0A, CHR ''a''])) = 2
   \<and> column (skip_whitespace_and_comments (Lexer_init [CHR 0x0A, CHR ''a''])) = 1
   \<and> remaining \<lparr>text = [CHR 0x0A, CHR ''a''], pos = 2, line = 2, column = 2\<rparr>
       < remaining (skip_whitespace_and_comments (Lexer_init [CHR 0x0A, CHR ''a'']))"
proof -
  have a: "pos (Lexer_init [CHR 0x0A, CHR ''a'']) < length (text (Lexer_init [CHR 0x0A, CHR
      ''a'']))"
    by (simp add: Lexer_init_def)
  have b: "next_token (Lexer_init [CHR 0x0A, CHR ''a''])
       = Inr (Token IDENT ''a'' 2 1, \<lparr>text = [CHR 0x0A, CHR ''a''], pos = 2, line = 2,
           column = 2\<rparr>)"
    by code_simp
  have c: "type (Token IDENT ''a'' 2 1) \<noteq> EOF"
    by simp
  from a b c
    position_tracking [of "Lexer_init [CHR 0x0A, CHR ''a'']" "Token IDENT ''a'' 2 1"
      "\<lparr>text = [CHR 0x0A, CHR ''a''], pos = 2, line = 2, column = 2\<rparr>"]
  show ?thesis
    by (simp add: Lexer_init_def)
qed

text \<open>
  The reserved words with their token kinds, following the words of the specification:
  the eleven keywords have a kind of their own, \<^verbatim>\<open>true\<close> and \<^verbatim>\<open>false\<close> are \<^verbatim>\<open>BOOL\<close>.
\<close>

definition reserved_words :: "(string \<times> TokenType) list" where
  "reserved_words =
    [(''if'', IF), (''do'', DO), (''def'', DEF), (''defn'', DEFN), (''let'', LET),
     (''print'', PRINT), (''str'', STRFN), (''list'', LISTFN), (''nth'', NTH),
     (''head'', HEAD), (''tail'', TAIL), (''true'', BOOL), (''false'', BOOL)]"

lemma keyword_kind_reserved_words:
  "keyword_kind w = (case map_of reserved_words w of Some k \<Rightarrow> k | None \<Rightarrow>
      IDENT)"
  by (simp add: keyword_kind_def reserved_words_def)

lemma keyword_kind_IDENT_iff:
  "keyword_kind w = IDENT \<longleftrightarrow> w \<notin> set (map fst reserved_words)"
  by (simp add: keyword_kind_def reserved_words_def)

lemma is_ident_start_dispatch:
  assumes "is_ident_start c"
  shows "c \<noteq> CHR 0x00" "c \<noteq> CHR ''(''" "c \<noteq> CHR '')''" "c \<noteq> CHR
      ''+''" "c \<noteq> CHR ''-''"
    "c \<noteq> CHR ''*''" "c \<noteq> CHR ''/''" "c \<noteq> CHR ''=''" "c \<noteq> CHR ''<''"
        "c \<noteq> CHR ''>''"
    "\<not> isdigit c" "c \<noteq> CHR 0x22"
  using assms by (auto simp: is_ident_start_def isalpha_def isdigit_def Let_def)

lemma is_ident_start_part: "is_ident_start c \<Longrightarrow> is_ident_part c"
  by (auto simp: is_ident_start_def is_ident_part_def isalnum_def Let_def)

lemma ident_or_keyword_loop_takeWhile:
  "fst (ident_or_keyword_loop s buf) = buf @ takeWhile is_ident_part (drop (pos s) (text s))"
proof (induction s buf rule: ident_or_keyword_loop.induct)
  case (1 s buf)
  show ?case
  proof (cases "is_ident_part (peek s)")
    case True
    then have r: "pos s < length (text s)"
      by (simp add: peek_not_nul_in_range is_ident_part_not_nul)
    have "fst (ident_or_keyword_loop s buf)
        = fst (ident_or_keyword_loop (consume s) (buf @ [peek s]))"
      using True by (subst ident_or_keyword_loop.simps) simp
    also have "\<dots> = (buf @ [peek s])
        @ takeWhile is_ident_part (drop (pos (consume s)) (text (consume s)))"
      using "1.IH" [OF True] .
    also have "\<dots> = buf @ takeWhile is_ident_part (drop (pos s) (text s))"
      using True by (simp add: drop_pos_consume [OF r])
    finally show ?thesis .
  next
    case False
    then have "takeWhile is_ident_part (drop (pos s) (text s)) = []"
      by (cases "pos s < length (text s)") (simp_all add: drop_pos_Cons)
    then show ?thesis
      using False by (subst ident_or_keyword_loop.simps) simp
  qed
qed


text \<open>
  C7. When the next token starts with an identifier-start character, its lexeme \<open>w\<close> is
  the longest run of identifier-part characters from there, and
      \<^verbatim>\<open>next_token\<close> returns
  a token with that lexeme whose kind is the one the table \<open>reserved_words\<close> gives to
  \<open>w\<close> (\<^verbatim>\<open>BOOL\<close> for \<^verbatim>\<open>true\<close> and
      \<^verbatim>\<open>false\<close>), and \<^verbatim>\<open>IDENT\<close> when
      \<open>w\<close> is not in the
  table; so the kind is \<^verbatim>\<open>IDENT\<close> exactly for the lexemes that are not
      reserved.
\<close>

theorem reserved_words_classified:
  assumes "is_ident_start (peek (skip_whitespace_and_comments s))"
  shows "let t = skip_whitespace_and_comments s;
             w = takeWhile is_ident_part (drop (pos t) (text t))
         in \<exists>tok s'. next_token s = Inr (tok, s')
              \<and> lexeme tok = w
              \<and> type tok = (case map_of reserved_words w of Some k \<Rightarrow> k | None
                  \<Rightarrow> IDENT)
              \<and> (type tok = IDENT \<longleftrightarrow> w \<notin> set (map fst
                  reserved_words))
              \<and> Token.line tok = line t \<and> Token.column tok = column t"
proof -
  define t where "t = skip_whitespace_and_comments s"
  define w where "w = takeWhile is_ident_part (drop (pos t) (text t))"
  have st: "is_ident_start (peek t)"
    using assms by (simp add: t_def)
  then have r: "pos t < length (text t)"
    by (simp add: peek_not_nul_in_range is_ident_start_not_nul)
  obtain b s' where l: "ident_or_keyword_loop (consume t) [peek t] = (b, s')"
    by (cases "ident_or_keyword_loop (consume t) [peek t]")
  have "b = [peek t] @ takeWhile is_ident_part (drop (pos (consume t)) (text (consume t)))"
    using ident_or_keyword_loop_takeWhile [of "consume t" "[peek t]"] l by simp
  also have "\<dots> = w"
    using is_ident_start_part [OF st] by (simp add: w_def drop_pos_consume [OF r])
  finally have b: "b = w" .
  have "next_token s = Inr (ident_or_keyword t (line t) (column t))"
    using is_ident_start_dispatch [OF st] st
    by (simp add: next_token_def Let_def t_def [symmetric])
  then have "next_token s = Inr (Token (keyword_kind w) w (line t) (column t), s')"
    using l b by (simp add: ident_or_keyword_eq)
  then have "\<exists>tok s'. next_token s = Inr (tok, s')
              \<and> lexeme tok = w
              \<and> type tok = (case map_of reserved_words w of Some k \<Rightarrow> k | None
                  \<Rightarrow> IDENT)
              \<and> (type tok = IDENT \<longleftrightarrow> w \<notin> set (map fst
                  reserved_words))
              \<and> Token.line tok = line t \<and> Token.column tok = column t"
    using keyword_kind_reserved_words [of w] keyword_kind_IDENT_iff [of w] by simp
  then show ?thesis
    unfolding Let_def t_def [symmetric] w_def [symmetric] .
qed

theorem reserved_words_classified_witness:
  "is_ident_start (peek (skip_whitespace_and_comments (Lexer_init ''  true)'')))
   \<and> (\<exists>tok s'. next_token (Lexer_init ''  true)'') = Inr (tok, s')
         \<and> lexeme tok = ''true'' \<and> type tok = BOOL
         \<and> Token.line tok = 1 \<and> Token.column tok = 3)"
proof -
  have a: "is_ident_start (peek (skip_whitespace_and_comments (Lexer_init ''  true)'')))"
    by code_simp
  have w: "takeWhile is_ident_part
      (drop (pos (skip_whitespace_and_comments (Lexer_init ''  true)'')))
            (text (skip_whitespace_and_comments (Lexer_init ''  true)'')))) = ''true''"
    by code_simp
  have k: "(case map_of reserved_words ''true'' of Some k \<Rightarrow> k | None \<Rightarrow>
      IDENT) = BOOL"
    by code_simp
  have p: "line (skip_whitespace_and_comments (Lexer_init ''  true)'')) = 1"
    "column (skip_whitespace_and_comments (Lexer_init ''  true)'')) = 3"
    by code_simp+
  have "\<exists>tok s'. next_token (Lexer_init ''  true)'') = Inr (tok, s')
         \<and> lexeme tok = ''true'' \<and> type tok = BOOL
         \<and> Token.line tok = 1 \<and> Token.column tok = 3"
    using reserved_words_classified [OF a] unfolding Let_def w k p by blast
  with a show ?thesis by blast
qed

text \<open>
  Texts made only of white space and of line comments, following the words of the
  specification: a comment runs from two semicolons through the end of its line.
\<close>

function only_whitespace_and_comments :: "string \<Rightarrow> bool" where
  "only_whitespace_and_comments [] = True"
| "only_whitespace_and_comments (c # cs) =
    (if is_space c then only_whitespace_and_comments cs
     else if c = CHR '';'' then
       (case cs of
          [] \<Rightarrow> False
        | d # ds \<Rightarrow> d = CHR '';''
            \<and> only_whitespace_and_comments (dropWhile (\<lambda>x. x \<noteq> CHR 0x0A) ds))
     else False)"
  by pat_completeness auto
termination
  by (relation "measure length") (auto simp: less_Suc_eq_le le_SucI length_dropWhile_le)

lemma drop_pos_Nil: "drop (pos s) (text s) = [] \<Longrightarrow> peek s = CHR 0x00"
  by (simp add: peek_def)

lemma drop_pos_eq_Cons:
  assumes "drop (pos s) (text s) = c # cs"
  shows "pos s < length (text s)" "peek s = c" "drop (pos (consume s)) (text s) = cs"
proof -
  show r: "pos s < length (text s)"
    using assms by (cases "pos s < length (text s)") simp_all
  from drop_pos_consume [OF r] assms show "peek s = c" "drop (pos (consume s)) (text s) = cs"
    by simp_all
qed

lemma peek_next_consume: "pos s < length (text s) \<Longrightarrow> peek_next s = peek (consume s)"
  by (simp add: peek_next_def peek_def pos_consume)

lemma skip_comment_rest:
  "peek (skip_comment v) = CHR 0x00
   \<or> drop (pos (skip_comment v)) (text v) = dropWhile (\<lambda>x. x \<noteq> CHR 0x0A)
       (drop (pos v) (text v))"
proof (induction v rule: skip_comment.induct)
  case (1 v)
  show ?case
  proof (cases "peek v \<noteq> CHR 0x0A \<and> peek v \<noteq> CHR 0x00")
    case True
    then have r: "pos v < length (text v)"
      by (simp add: peek_not_nul_in_range)
    have u: "skip_comment v = skip_comment (consume v)"
      using True by (subst skip_comment.simps) simp
    have "dropWhile (\<lambda>x. x \<noteq> CHR 0x0A) (drop (pos v) (text v))
        = dropWhile (\<lambda>x. x \<noteq> CHR 0x0A) (drop (pos (consume v)) (text (consume v)))"
      using True by (simp add: drop_pos_consume [OF r])
    then show ?thesis
      using "1.IH" [OF True] u by simp
  next
    case False
    then have u: "skip_comment v = v"
      by (subst skip_comment.simps) auto
    show ?thesis
    proof (cases "peek v = CHR 0x00")
      case True
      then show ?thesis using u by simp
    next
      case nn: False
      then have r: "pos v < length (text v)"
        by (rule peek_not_nul_in_range)
      have "peek v = CHR 0x0A"
        using False nn by simp
      then show ?thesis
        using u by (simp add: drop_pos_Cons [OF r])
    qed
  qed
qed

lemma skip_only_whitespace_and_comments:
  "only_whitespace_and_comments (drop (pos s) (text s)) \<Longrightarrow>
     peek (skip_whitespace_and_comments s) = CHR 0x00"
proof (induction s rule: skip_whitespace_and_comments.induct)
  case (1 s)
  show ?case
  proof (cases "is_space (peek s)")
    case True
    then have r: "pos s < length (text s)"
      by (simp add: peek_not_nul_in_range is_space_not_nul)
    have "only_whitespace_and_comments (drop (pos (consume s)) (text (consume s)))"
      using "1.prems" True by (simp add: drop_pos_consume [OF r])
    from "1.IH"(1) [OF True this] show ?thesis
      using True by (subst skip_whitespace_and_comments.simps) simp
  next
    case nsp: False
    show ?thesis
    proof (cases "peek s = CHR '';'' \<and> peek_next s = CHR '';''")
      case True
      define v where "v = consume (consume s)"
      have "peek s \<noteq> CHR 0x00"
        using True by simp
      then have r: "pos s < length (text s)"
        by (rule peek_not_nul_in_range)
      have pn: "peek (consume s) = CHR '';''"
        using True by (simp add: peek_next_consume [OF r])
      then have "peek (consume s) \<noteq> CHR 0x00"
        by simp
      then have r': "pos (consume s) < length (text (consume s))"
        by (rule peek_not_nul_in_range)
      have "drop (pos s) (text s) = CHR '';'' # CHR '';'' # drop (pos v) (text v)"
        using drop_pos_consume [OF r] drop_pos_consume [OF r'] True pn by (simp add: v_def)
      then have b: "only_whitespace_and_comments
          (dropWhile (\<lambda>x. x \<noteq> CHR 0x0A) (drop (pos v) (text v)))"
        using "1.prems" by (simp add: is_space_def)
      have u: "skip_whitespace_and_comments s = skip_whitespace_and_comments (skip_comment v)"
        using nsp True by (subst skip_whitespace_and_comments.simps) (simp add: v_def)
      from skip_comment_rest [of v] show ?thesis
      proof
        assume "peek (skip_comment v) = CHR 0x00"
        then show ?thesis
          using u by (simp add: skip_whitespace_and_comments_at_nul)
      next
        assume "drop (pos (skip_comment v)) (text v)
            = dropWhile (\<lambda>x. x \<noteq> CHR 0x0A) (drop (pos v) (text v))"
        then have "only_whitespace_and_comments
            (drop (pos (skip_comment v)) (text (skip_comment v)))"
          using b by simp
        from "1.IH"(2) [OF nsp True this [unfolded v_def]] show ?thesis
          using u by (simp add: v_def)
      qed
    next
      case False
      then have u: "skip_whitespace_and_comments s = s"
        using nsp by (subst skip_whitespace_and_comments.simps) auto
      show ?thesis
      proof (cases "drop (pos s) (text s)")
        case Nil
        then show ?thesis using u by (simp add: drop_pos_Nil)
      next
        case (Cons c cs)
        note c = drop_pos_eq_Cons [OF Cons]
        have "c = CHR '';''" and "\<exists>ds. cs = CHR '';'' # ds"
          using "1.prems" nsp c(2) unfolding Cons by (auto split: if_splits list.splits)
        then obtain ds where "drop (pos (consume s)) (text (consume s)) = CHR '';'' # ds"
          using c(3) by auto
        then have "peek (consume s) = CHR '';''"
          by (rule drop_pos_eq_Cons(2))
        then have "peek_next s = CHR '';''"
          by (simp add: peek_next_consume [OF c(1)])
        then show ?thesis
          using False c(2) \<open>c = CHR '';''\<close> by simp
      qed
    qed
  qed
qed


text \<open>
  C9. For a text that consists only of white space (space, tab, carriage return,
  newline) and of line comments (two semicolons, through the end of the line),
  \<^verbatim>\<open>tokenize\<close> returns exactly one token, an
      \<^verbatim>\<open>EOF\<close> token with the lexeme
  \<^verbatim>\<open><EOF>\<close>.
\<close>

theorem tokenize_blank_input:
  assumes "only_whitespace_and_comments txt"
  shows "\<exists>l c s'. tokenize (Lexer_init txt) = Inr ([Token EOF ''<EOF>'' l c], s')"
proof -
  define s where "s = Lexer_init txt"
  have "only_whitespace_and_comments (drop (pos s) (text s))"
    using assms by (simp add: s_def Lexer_init_def)
  then have "peek (skip_whitespace_and_comments s) = CHR 0x00"
    by (rule skip_only_whitespace_and_comments)
  from next_token_at_nul [OF this]
  have "tokenize s = Inr ([Token EOF ''<EOF>'' (line (skip_whitespace_and_comments s))
      (column (skip_whitespace_and_comments s))], skip_whitespace_and_comments s)"
    by (simp add: tokenize_def tokenize_loop.simps [of s])
  then show ?thesis
    unfolding s_def by blast
qed

theorem tokenize_blank_input_witness:
  "only_whitespace_and_comments [CHR '' '', CHR '';'', CHR '';'', CHR ''('', CHR 0x0A, CHR 0x09]
   \<and> (\<exists>l c s'. tokenize (Lexer_init [CHR '' '', CHR '';'', CHR '';'', CHR ''('',
       CHR 0x0A, CHR 0x09])
         = Inr ([Token EOF ''<EOF>'' l c], s'))"
proof -
  have a: "only_whitespace_and_comments
      [CHR '' '', CHR '';'', CHR '';'', CHR ''('', CHR 0x0A, CHR 0x09]"
    by code_simp
  from tokenize_blank_input [OF a] a show ?thesis by blast
qed

section \<open>Properties of the parser\<close>

lemma bind_Some_Inr:
  "bind m f = Some (Inr r) \<longleftrightarrow> (\<exists>x. m = Some (Inr x) \<and> f x = Some
      (Inr r))"
  by (auto simp: bind_def split: option.splits sum.splits)

lemma bind_None:
  "bind m f = None \<longleftrightarrow> m = None \<or> (\<exists>x. m = Some (Inr x) \<and> f x
      = None)"
  by (auto simp: bind_def split: option.splits sum.splits)

lemma bind_Some_Inl:
  "bind m f = Some (Inl e) \<longleftrightarrow>
     m = Some (Inl e) \<or> (\<exists>x. m = Some (Inr x) \<and> f x = Some (Inl e))"
  by (auto simp: bind_def split: option.splits sum.splits)

lemma bind_simps [simp]:
  "bind None f = None"
  "bind (Some (Inl e)) f = Some (Inl e)"
  "bind (Some (Inr x)) f = f x"
  by (simp_all add: bind_def)

text \<open>
  One more unit of the bound never changes a result that was reached: \<open>le_result a b\<close>
  says that \<open>a\<close> is either the reached bound or the same result as \<open>b\<close>.
\<close>

definition le_result :: "'a option \<Rightarrow> 'a option \<Rightarrow> bool" where
  "le_result a b = (a = None \<or> a = b)"

lemma le_result_refl [simp]: "le_result a a"
  by (simp add: le_result_def)

lemma le_result_None [simp]: "le_result None b"
  by (simp add: le_result_def)

lemma le_result_bind:
  assumes "le_result m m'" and "\<And>x. le_result (f x) (f' x)"
  shows "le_result (bind m f) (bind m' f')"
  using assms by (auto simp: le_result_def bind_def split: option.splits sum.splits)

lemma le_result_bind_same:
  assumes "\<And>x. le_result (f x) (f' x)"
  shows "le_result (bind m f) (bind m f')"
  by (rule le_result_bind) (simp_all add: assms)

lemma le_result_case_prod:
  assumes "\<And>a b. le_result (f a b) (g a b)"
  shows "le_result (case x of (a, b) \<Rightarrow> f a b) (case x of (a, b) \<Rightarrow> g a b)"
  using assms by (cases x) simp

lemma le_result_if:
  assumes "c \<Longrightarrow> le_result a a'" and "\<not> c \<Longrightarrow> le_result b b'"
  shows "le_result (if c then a else b) (if c then a' else b')"
  using assms by simp

lemma le_result_Let:
  assumes "le_result (f x) (g x)"
  shows "le_result (Let x f) (Let x g)"
  using assms by simp

lemmas le_result_intros =
  le_result_bind le_result_case_prod le_result_if le_result_Let le_result_refl

lemma parser_bound_Suc:
  "(\<forall>p. le_result (parse_expr n p) (parse_expr (Suc n) p))
   \<and> (\<forall>p. le_result (parse_list_expr n p) (parse_list_expr (Suc n) p))
   \<and> (\<forall>p. le_result (parse_form n p) (parse_form (Suc n) p))
   \<and> (\<forall>p. le_result (parse_if_expr n p) (parse_if_expr (Suc n) p))
   \<and> (\<forall>p. le_result (parse_do_expr n p) (parse_do_expr (Suc n) p))
   \<and> (\<forall>p xs. le_result (parse_do_expr_loop n p xs) (parse_do_expr_loop (Suc n) p xs))
   \<and> (\<forall>p. le_result (parse_def_expr n p) (parse_def_expr (Suc n) p))
   \<and> (\<forall>p. le_result (parse_defn_expr n p) (parse_defn_expr (Suc n) p))
   \<and> (\<forall>p. le_result (parse_let_expr n p) (parse_let_expr (Suc n) p))
   \<and> (\<forall>p xs. le_result (parse_let_expr_loop n p xs) (parse_let_expr_loop (Suc n) p xs))
   \<and> (\<forall>p. le_result (parse_app_expr n p) (parse_app_expr (Suc n) p))
   \<and> (\<forall>p xs. le_result (parse_app_expr_loop n p xs) (parse_app_expr_loop (Suc n) p
       xs))"
proof (induction n)
  case 0
  show ?case by simp
next
  case (Suc n)
  then have ih:
    "\<And>p. le_result (parse_expr n p) (parse_expr (Suc n) p)"
    "\<And>p. le_result (parse_list_expr n p) (parse_list_expr (Suc n) p)"
    "\<And>p. le_result (parse_form n p) (parse_form (Suc n) p)"
    "\<And>p. le_result (parse_if_expr n p) (parse_if_expr (Suc n) p)"
    "\<And>p. le_result (parse_do_expr n p) (parse_do_expr (Suc n) p)"
    "\<And>p xs. le_result (parse_do_expr_loop n p xs) (parse_do_expr_loop (Suc n) p xs)"
    "\<And>p. le_result (parse_def_expr n p) (parse_def_expr (Suc n) p)"
    "\<And>p. le_result (parse_defn_expr n p) (parse_defn_expr (Suc n) p)"
    "\<And>p. le_result (parse_let_expr n p) (parse_let_expr (Suc n) p)"
    "\<And>p xs. le_result (parse_let_expr_loop n p xs) (parse_let_expr_loop (Suc n) p xs)"
    "\<And>p. le_result (parse_app_expr n p) (parse_app_expr (Suc n) p)"
    "\<And>p xs. le_result (parse_app_expr_loop n p xs) (parse_app_expr_loop (Suc n) p xs)"
    by blast+
  have 1: "le_result (parse_expr (Suc n) p) (parse_expr (Suc (Suc n)) p)" for p
    by (subst parse_expr.simps(2) [of n], subst parse_expr.simps(2) [of "Suc n"],
        intro le_result_intros ih)
  have 2: "le_result (parse_list_expr (Suc n) p) (parse_list_expr (Suc (Suc n)) p)" for p
    by (subst parse_list_expr.simps(2) [of n], subst parse_list_expr.simps(2) [of "Suc n"],
        intro le_result_intros ih)
  have 3: "le_result (parse_form (Suc n) p) (parse_form (Suc (Suc n)) p)" for p
    by (subst parse_form.simps(2) [of n], subst parse_form.simps(2) [of "Suc n"],
        intro le_result_intros ih)
  have 4: "le_result (parse_if_expr (Suc n) p) (parse_if_expr (Suc (Suc n)) p)" for p
    by (subst parse_if_expr.simps(2) [of n], subst parse_if_expr.simps(2) [of "Suc n"],
        intro le_result_intros ih)
  have 5: "le_result (parse_do_expr (Suc n) p) (parse_do_expr (Suc (Suc n)) p)" for p
    by (subst parse_do_expr.simps(2) [of n], subst parse_do_expr.simps(2) [of "Suc n"],
        intro le_result_intros ih)
  have 6: "le_result (parse_do_expr_loop (Suc n) p xs) (parse_do_expr_loop (Suc (Suc n)) p xs)"
    for p xs
    by (subst parse_do_expr_loop.simps(2) [of n], subst parse_do_expr_loop.simps(2) [of "Suc n"],
        intro le_result_intros ih)
  have 7: "le_result (parse_def_expr (Suc n) p) (parse_def_expr (Suc (Suc n)) p)" for p
    by (subst parse_def_expr.simps(2) [of n], subst parse_def_expr.simps(2) [of "Suc n"],
        intro le_result_intros ih)
  have 8: "le_result (parse_defn_expr (Suc n) p) (parse_defn_expr (Suc (Suc n)) p)" for p
    by (subst parse_defn_expr.simps(2) [of n], subst parse_defn_expr.simps(2) [of "Suc n"],
        intro le_result_intros ih)
  have 9: "le_result (parse_let_expr (Suc n) p) (parse_let_expr (Suc (Suc n)) p)" for p
    by (subst parse_let_expr.simps(2) [of n], subst parse_let_expr.simps(2) [of "Suc n"],
        intro le_result_intros ih)
  have 10: "le_result (parse_let_expr_loop (Suc n) p xs) (parse_let_expr_loop (Suc (Suc n)) p xs)"
    for p xs
    by (subst parse_let_expr_loop.simps(2) [of n], subst parse_let_expr_loop.simps(2) [of "Suc n"],
        intro le_result_intros ih)
  have 11: "le_result (parse_app_expr (Suc n) p) (parse_app_expr (Suc (Suc n)) p)" for p
    by (subst parse_app_expr.simps(2) [of n], subst parse_app_expr.simps(2) [of "Suc n"],
        intro le_result_intros ih)
  have 12: "le_result (parse_app_expr_loop (Suc n) p xs) (parse_app_expr_loop (Suc (Suc n)) p xs)"
    for p xs
    by (subst parse_app_expr_loop.simps(2) [of n], subst parse_app_expr_loop.simps(2) [of "Suc n"],
        intro le_result_intros ih)
  from 1 2 3 4 5 6 7 8 9 10 11 12 show ?case
    by blast
qed


lemma parse_expr_bound_Suc: "le_result (parse_expr n p) (parse_expr (Suc n) p)"
  using parser_bound_Suc [of n] by blast

lemma parse_loop_bound_Suc: "le_result (parse_loop n p xs) (parse_loop (Suc n) p xs)"
proof (induction n arbitrary: p xs)
  case 0
  show ?case by simp
next
  case (Suc n)
  show ?case
    by (subst parse_loop.simps(2) [of n], subst parse_loop.simps(2) [of "Suc n"],
        intro le_result_intros parse_expr_bound_Suc Suc.IH)
qed

lemma parse_text_bound_Suc: "le_result (parse_text n code) (parse_text (Suc n) code)"
  using parse_loop_bound_Suc [of n _ "[]"]
  by (simp add: parse_text_def parse_def split: sum.splits)

lemma parse_text_bound_mono:
  assumes "parse_text n code = Some r" and "n \<le> m"
  shows "parse_text m code = Some r"
  using assms(2)
proof (induction m rule: dec_induct)
  case base
  show ?case by (rule assms(1))
next
  case (step k)
  with parse_text_bound_Suc [of k code] show ?case
    by (simp add: le_result_def)
qed


text \<open>All nodes of a tree, the root first.\<close>

fun nodes :: "Node \<Rightarrow> Node list" where
  "nodes (Node k v cs) = Node k v cs # concat (map nodes cs)"

text \<open>
  The kinds of the nodes that stand for an expression: the four atoms and the list form.
\<close>

definition expr_kinds :: "string list" where
  "expr_kinds =
    [''IntLiteral'', ''StringLiteral'', ''BoolLiteral'', ''Identifier'', ''ListExpr'']"

text \<open>
  A node is a parsed function definition when a call of \<^verbatim>\<open>parse_defn_expr\<close> returned it:
  the parser stood on the keyword \<^verbatim>\<open>defn\<close>, the next token was an identifier, whose
  lexeme is the value of the node; the first child is the \<^verbatim>\<open>ParamList\<close> node of the
  parameters, each a childless \<^verbatim>\<open>Param\<close> node; and the second child is the node that
  \<^verbatim>\<open>parse_expr\<close> returned for the body, which ended the call.
\<close>

definition is_parsed_defn :: "Node \<Rightarrow> bool" where
  "is_parsed_defn x =
    (\<exists>n p p' name_tok lx params p5 body.
       parse_defn_expr (Suc n) p = Some (Inr (x, p'))
       \<and> type (lookahead p) = DEFN
       \<and> next_token (lexer p) = Inr (name_tok, lx)
       \<and> type name_tok = IDENT
       \<and> (\<forall>q \<in> set params. kind q = ''Param'' \<and> children q = [])
       \<and> parse_expr n p5 = Some (Inr (body, p'))
       \<and> x = Node ''DefnExpr'' (Some (lexeme name_tok))
                 [Node ''ParamList'' None params, body])"

text \<open>
  The shape that the parser gives to a list form, a conditional, a sequence and a
  function definition, as a condition on one node.
\<close>

definition node_ok :: "Node \<Rightarrow> bool" where
  "node_ok x =
    ((kind x = ''ListExpr'' \<longrightarrow> length (children x) = 1)
     \<and> (kind x = ''IfExpr'' \<longrightarrow> length (children x) = 2 \<or> length
         (children x) = 3)
     \<and> (kind x = ''DoExpr'' \<longrightarrow> children x \<noteq> [])
     \<and> (kind x = ''DefnExpr'' \<longrightarrow>
          node_value x \<noteq> None \<and> length (children x) = 2
          \<and> kind (children x ! 0) = ''ParamList''
          \<and> (\<forall>q \<in> set (children (children x ! 0)). kind q = ''Param'')
          \<and> kind (children x ! 1) \<in> set expr_kinds
          \<and> is_parsed_defn x))"

fun wf_node :: "Node \<Rightarrow> bool" where
  "wf_node (Node k v cs) = (node_ok (Node k v cs) \<and> (\<forall>c \<in> set cs. wf_node c))"

lemma wf_node_nodes: "wf_node t \<Longrightarrow> x \<in> set (nodes t) \<Longrightarrow> node_ok x"
  by (induction t arbitrary: x) auto

lemma match_Inr:
  "match p t = Inr (tok, p') \<longleftrightarrow>
     type (lookahead p) = t \<and> tok = lookahead p \<and> consume_parser p = Inr p'"
  by (auto simp: match_def error_def Let_def split: sum.splits)

lemma parse_atom_wf: "parse_atom p = Inr (node, p') \<Longrightarrow> wf_node node"
  by (auto simp: parse_atom_def Let_def error_def node_ok_def split: if_splits sum.splits)

lemma parse_defn_expr_params_kind:
  "parse_defn_expr_params p acc = Inr (ps, p') \<Longrightarrow>
     \<forall>q \<in> set acc. kind q = ''Param'' \<and> children q = [] \<Longrightarrow>
     \<forall>q \<in> set ps. kind q = ''Param'' \<and> children q = []"
proof (induction p acc rule: parse_defn_expr_params.induct)
  case (1 p params)
  show ?case
  proof (cases "type (lookahead p) = IDENT")
    case True
    then obtain p1 where c: "consume_parser p = Inr p1"
      and r: "parse_defn_expr_params p1
          (params @ [Node ''Param'' (Some (lexeme (lookahead p))) []]) = Inr (ps, p')"
      using "1.prems"(1)
      by (subst (asm) parse_defn_expr_params.simps) (auto split: sum.splits)
    from "1.IH" [OF True c r] "1.prems"(2) show ?thesis
      by simp
  next
    case False
    then have "ps = params"
      using "1.prems"(1) by (subst (asm) parse_defn_expr_params.simps) simp
    then show ?thesis
      using "1.prems"(2) by simp
  qed
qed


lemma parse_expr_kind:
  assumes "parse_expr n p = Some (Inr (node, p'))"
  shows "kind node \<in> set expr_kinds"
proof -
  obtain m where n: "n = Suc m"
    using assms by (cases n) simp_all
  show ?thesis
  proof (cases "type (lookahead p) \<in> set [INT_TOK, STRING, BOOL, IDENT]")
    case True
    then have "parse_atom p = Inr (node, p')"
      using assms unfolding n by (simp add: Let_def)
    then show ?thesis
      by (auto simp: parse_atom_def Let_def error_def expr_kinds_def
          split: if_splits sum.splits)
  next
    case False
    then have l: "parse_list_expr m p = Some (Inr (node, p'))"
      using assms unfolding n by (auto simp: Let_def error_def split: if_splits)
    then obtain j where m: "m = Suc j"
      by (cases m) simp_all
    from l show ?thesis
      unfolding m by (auto simp: bind_Some_Inr expr_kinds_def)
  qed
qed

lemma parse_defn_expr_shape:
  assumes "parse_defn_expr k p = Some (Inr (node, p'))"
  shows "\<exists>n name_tok lx params p5 body.
           k = Suc n
           \<and> type (lookahead p) = DEFN
           \<and> next_token (lexer p) = Inr (name_tok, lx)
           \<and> type name_tok = IDENT
           \<and> (\<forall>q \<in> set params. kind q = ''Param'' \<and> children q = [])
           \<and> parse_expr n p5 = Some (Inr (body, p'))
           \<and> node = Node ''DefnExpr'' (Some (lexeme name_tok))
                      [Node ''ParamList'' None params, body]"
proof -
  obtain n where k: "k = Suc n"
    using assms by (cases k) simp_all
  from assms obtain kw p1 name_tok p2 lp p3 params p4 rp p5 body
    where m1: "match p DEFN = Inr (kw, p1)"
      and m2: "match p1 IDENT = Inr (name_tok, p2)"
      and ps: "parse_defn_expr_params p3 [] = Inr (params, p4)"
      and b: "parse_expr n p5 = Some (Inr (body, p'))"
      and node: "node = Node ''DefnExpr'' (Some (lexeme name_tok))
                          [Node ''ParamList'' None params, body]"
    unfolding k by (auto simp: bind_Some_Inr Let_def)
  from m1 have d: "type (lookahead p) = DEFN" and c: "consume_parser p = Inr p1"
    by (simp_all add: match_Inr)
  from c obtain tok lx where nt: "next_token (lexer p) = Inr (tok, lx)"
    and l: "lookahead p1 = tok"
    by (auto simp: consume_parser_def split: sum.splits)
  from m2 l have i: "type name_tok = IDENT" and t: "tok = name_tok"
    by (auto simp: match_Inr)
  from parse_defn_expr_params_kind [OF ps]
  have q: "\<forall>q \<in> set params. kind q = ''Param'' \<and> children q = []"
    by simp
  from k d nt i q b node show ?thesis
    unfolding t by blast
qed

lemma parse_defn_expr_parsed:
  assumes "parse_defn_expr k p = Some (Inr (node, p'))"
  shows "is_parsed_defn node"
  using parse_defn_expr_shape [OF assms] assms
  unfolding is_parsed_defn_def by blast

text \<open>
  What the functions of the parser return, by induction on the bound. An expression is
  well formed. A form is well formed when the token after it is a closing parenthesis,
  which is what \<^verbatim>\<open>parse_list_expr\<close> demands next. The loops keep the
      nodes they have
  collected and add well-formed ones.
\<close>

definition returns_wf :: "(error + Node \<times> Parser) option \<Rightarrow> bool" where
  "returns_wf r = (\<forall>node p'. r = Some (Inr (node, p')) \<longrightarrow> wf_node node)"

definition returns_form :: "(error + Node \<times> Parser) option \<Rightarrow> bool" where
  "returns_form r =
    (\<forall>node p'. r = Some (Inr (node, p')) \<longrightarrow> type (lookahead p') = RPAREN
        \<longrightarrow> wf_node node)"

definition returns_list :: "Node list \<Rightarrow> (error + Node list \<times> Parser) option
    \<Rightarrow> bool" where
  "returns_list acc r =
    (\<forall>xs p'. r = Some (Inr (xs, p')) \<longrightarrow> (\<forall>x \<in> set acc.
        wf_node x) \<longrightarrow>
       (\<forall>x \<in> set xs. wf_node x))"

definition returns_do_list ::
  "Parser \<Rightarrow> Node list \<Rightarrow> (error + Node list \<times> Parser) option
      \<Rightarrow> bool" where
  "returns_do_list p acc r =
    (\<forall>xs p'. r = Some (Inr (xs, p')) \<longrightarrow>
       (acc \<noteq> [] \<longrightarrow> xs \<noteq> [])
       \<and> (xs = [] \<longrightarrow> p' = p \<and> type (lookahead p) \<in> set [RPAREN, EOF]))"

lemma returns_wf_form: "returns_wf r \<Longrightarrow> returns_form r"
  by (simp add: returns_wf_def returns_form_def)

lemma parser_returns:
  "(\<forall>p. returns_wf (parse_expr n p))
   \<and> (\<forall>p. returns_wf (parse_list_expr n p))
   \<and> (\<forall>p. returns_form (parse_form n p))
   \<and> (\<forall>p. returns_wf (parse_if_expr n p))
   \<and> (\<forall>p. returns_form (parse_do_expr n p))
   \<and> (\<forall>p acc. returns_list acc (parse_do_expr_loop n p acc)
               \<and> returns_do_list p acc (parse_do_expr_loop n p acc))
   \<and> (\<forall>p. returns_wf (parse_def_expr n p))
   \<and> (\<forall>p. returns_wf (parse_defn_expr n p))
   \<and> (\<forall>p. returns_wf (parse_let_expr n p))
   \<and> (\<forall>p acc. returns_list acc (parse_let_expr_loop n p acc))
   \<and> (\<forall>p. returns_wf (parse_app_expr n p))
   \<and> (\<forall>p acc. returns_list acc (parse_app_expr_loop n p acc))"
proof (induction n)
  case 0
  show ?case
    by (simp add: returns_wf_def returns_form_def returns_list_def returns_do_list_def)
next
  case (Suc n)
  then have expr: "\<And>p. returns_wf (parse_expr n p)"
    and list_expr: "\<And>p. returns_wf (parse_list_expr n p)"
    and form: "\<And>p. returns_form (parse_form n p)"
    and if_expr: "\<And>p. returns_wf (parse_if_expr n p)"
    and do_expr: "\<And>p. returns_form (parse_do_expr n p)"
    and do_loop: "\<And>p acc. returns_list acc (parse_do_expr_loop n p acc)"
    and do_loop': "\<And>p acc. returns_do_list p acc (parse_do_expr_loop n p acc)"
    and def_expr: "\<And>p. returns_wf (parse_def_expr n p)"
    and defn_expr: "\<And>p. returns_wf (parse_defn_expr n p)"
    and let_expr: "\<And>p. returns_wf (parse_let_expr n p)"
    and let_loop: "\<And>p acc. returns_list acc (parse_let_expr_loop n p acc)"
    and app_expr: "\<And>p. returns_wf (parse_app_expr n p)"
    and app_loop: "\<And>p acc. returns_list acc (parse_app_expr_loop n p acc)"
    by blast+
  have expr_wf: "wf_node node" if "parse_expr n p = Some (Inr (node, p'))" for p node p'
    using expr [of p] that by (simp add: returns_wf_def)
  have do_loop_wf: "\<forall>x \<in> set xs. wf_node x"
    if "parse_do_expr_loop n p acc = Some (Inr (xs, p'))" and "\<forall>x \<in> set acc. wf_node x"
    for p acc xs p'
    using do_loop [of acc p] that by (simp add: returns_list_def)
  have let_loop_wf: "\<forall>x \<in> set xs. wf_node x"
    if "parse_let_expr_loop n p acc = Some (Inr (xs, p'))" and "\<forall>x \<in> set acc. wf_node x"
    for p acc xs p'
    using let_loop [of acc p] that by (simp add: returns_list_def)
  have app_loop_wf: "\<forall>x \<in> set xs. wf_node x"
    if "parse_app_expr_loop n p acc = Some (Inr (xs, p'))" and "\<forall>x \<in> set acc. wf_node x"
    for p acc xs p'
    using app_loop [of acc p] that by (simp add: returns_list_def)
  have 1: "returns_wf (parse_expr (Suc n) p)" for p
    using list_expr [of p]
    by (auto simp: returns_wf_def Let_def error_def split: if_splits dest: parse_atom_wf)
  have 2: "returns_wf (parse_list_expr (Suc n) p)" for p
    unfolding returns_wf_def
  proof (intro allI impI)
    fix node p'
    assume "parse_list_expr (Suc n) p = Some (Inr (node, p'))"
    then obtain lp p1 inside p2 rp where "match p LPAREN = Inr (lp, p1)"
      and f: "parse_form n p1 = Some (Inr (inside, p2))"
      and m: "match p2 RPAREN = Inr (rp, p')"
      and node: "node = Node ''ListExpr'' None [inside]"
      by (auto simp: bind_Some_Inr)
    from m have "type (lookahead p2) = RPAREN"
      by (simp add: match_Inr)
    with form [of p1] f have "wf_node inside"
      by (simp add: returns_form_def)
    then show "wf_node node"
      by (simp add: node node_ok_def)
  qed
  have 3: "returns_form (parse_form (Suc n) p)" for p
    using if_expr [of p] do_expr [of p] def_expr [of p] defn_expr [of p] let_expr [of p]
      app_expr [of p]
    by (auto simp: Let_def dest: returns_wf_form)
  have 4: "returns_wf (parse_if_expr (Suc n) p)" for p
    unfolding returns_wf_def
  proof (intro allI impI)
    fix node p'
    assume "parse_if_expr (Suc n) p = Some (Inr (node, p'))"
    then obtain p1 cond p2 then_branch p3
      where c: "parse_expr n p1 = Some (Inr (cond, p2))"
        and t: "parse_expr n p2 = Some (Inr (then_branch, p3))"
        and r: "(\<exists>else_branch. parse_expr n p3 = Some (Inr (else_branch, p'))
                   \<and> node = Node ''IfExpr'' None [cond, then_branch, else_branch])
                \<or> node = Node ''IfExpr'' None [cond, then_branch]"
      by (auto simp: bind_Some_Inr split: if_splits)
    from r show "wf_node node"
    proof
      assume "\<exists>else_branch. parse_expr n p3 = Some (Inr (else_branch, p'))
                   \<and> node = Node ''IfExpr'' None [cond, then_branch, else_branch]"
      then obtain else_branch where e: "parse_expr n p3 = Some (Inr (else_branch, p'))"
        and node: "node = Node ''IfExpr'' None [cond, then_branch, else_branch]"
        by blast
      show ?thesis
        using expr_wf [OF c] expr_wf [OF t] expr_wf [OF e] by (simp add: node node_ok_def)
    next
      assume "node = Node ''IfExpr'' None [cond, then_branch]"
      then show ?thesis
        using expr_wf [OF c] expr_wf [OF t] by (simp add: node_ok_def)
    qed
  qed
  have 5: "returns_form (parse_do_expr (Suc n) p)" for p
    unfolding returns_form_def
  proof (intro allI impI)
    fix node p'
    assume "parse_do_expr (Suc n) p = Some (Inr (node, p'))"
      and rp: "type (lookahead p') = RPAREN"
    then obtain p1 exprs where l: "parse_do_expr_loop n p1 [] = Some (Inr (exprs, p'))"
      and nrp: "type (lookahead p1) \<noteq> RPAREN"
      and node: "node = Node ''DoExpr'' None exprs"
      by (auto simp: bind_Some_Inr error_def split: if_splits)
    from do_loop_wf [OF l] have w: "\<forall>x \<in> set exprs. wf_node x"
      by simp
    from do_loop' [of p1 "[]"] l rp nrp have "exprs \<noteq> []"
      by (auto simp: returns_do_list_def)
    with w show "wf_node node"
      by (simp add: node node_ok_def)
  qed
  have 6: "returns_list acc (parse_do_expr_loop (Suc n) p acc)" for p acc
    unfolding returns_list_def
  proof (intro allI impI)
    fix xs p'
    assume r: "parse_do_expr_loop (Suc n) p acc = Some (Inr (xs, p'))"
      and acc: "\<forall>x \<in> set acc. wf_node x"
    show "\<forall>x \<in> set xs. wf_node x"
    proof (cases "type (lookahead p) \<notin> set [RPAREN, EOF]")
      case True
      with r obtain x p1 where x: "parse_expr n p = Some (Inr (x, p1))"
        and l: "parse_do_expr_loop n p1 (acc @ [x]) = Some (Inr (xs, p'))"
        by (auto simp: bind_Some_Inr)
      from expr_wf [OF x] acc have "\<forall>y \<in> set (acc @ [x]). wf_node y"
        by simp
      from do_loop_wf [OF l this] show ?thesis .
    next
      case False
      with r acc show ?thesis by auto
    qed
  qed
  have 13: "returns_do_list p acc (parse_do_expr_loop (Suc n) p acc)" for p acc
    unfolding returns_do_list_def
  proof (intro allI impI)
    fix xs p'
    assume r: "parse_do_expr_loop (Suc n) p acc = Some (Inr (xs, p'))"
    show "(acc \<noteq> [] \<longrightarrow> xs \<noteq> [])
       \<and> (xs = [] \<longrightarrow> p' = p \<and> type (lookahead p) \<in> set [RPAREN, EOF])"
    proof (cases "type (lookahead p) \<notin> set [RPAREN, EOF]")
      case True
      with r obtain x p1 where
        l: "parse_do_expr_loop n p1 (acc @ [x]) = Some (Inr (xs, p'))"
        by (auto simp: bind_Some_Inr)
      with do_loop' [of p1 "acc @ [x]"] have "xs \<noteq> []"
        by (simp add: returns_do_list_def)
      then show ?thesis by simp
    next
      case False
      with r show ?thesis by auto
    qed
  qed
  have 7: "returns_wf (parse_def_expr (Suc n) p)" for p
    unfolding returns_wf_def
  proof (intro allI impI)
    fix node p'
    assume "parse_def_expr (Suc n) p = Some (Inr (node, p'))"
    then obtain name_tok p2 v where v: "parse_expr n p2 = Some (Inr (v, p'))"
      and node: "node = Node ''DefExpr'' (Some (lexeme name_tok)) [v]"
      by (auto simp: bind_Some_Inr)
    from expr_wf [OF v] show "wf_node node"
      by (simp add: node node_ok_def)
  qed
  have 8: "returns_wf (parse_defn_expr (Suc n) p)" for p
    unfolding returns_wf_def
  proof (intro allI impI)
    fix node p'
    assume a: "parse_defn_expr (Suc n) p = Some (Inr (node, p'))"
    then obtain name_tok p3 params p4 p5 body
      where ps: "parse_defn_expr_params p3 [] = Inr (params, p4)"
        and b: "parse_expr n p5 = Some (Inr (body, p'))"
        and node: "node = Node ''DefnExpr'' (Some (lexeme name_tok))
                            [Node ''ParamList'' None params, body]"
      by (auto simp: bind_Some_Inr Let_def)
    from parse_defn_expr_params_kind [OF ps]
    have k: "\<forall>q \<in> set params. kind q = ''Param'' \<and> children q = []"
      by simp
    have "wf_node q" if "q \<in> set params" for q
      using k that by (cases q) (auto simp: node_ok_def)
    then show "wf_node node"
      using k expr_wf [OF b] parse_expr_kind [OF b] parse_defn_expr_parsed [OF a]
      by (simp add: node node_ok_def)
  qed
  have 9: "returns_wf (parse_let_expr (Suc n) p)" for p
    unfolding returns_wf_def
  proof (intro allI impI)
    fix node p'
    assume "parse_let_expr (Suc n) p = Some (Inr (node, p'))"
    then obtain p2 bindings p3 p4 body
      where l: "parse_let_expr_loop n p2 [] = Some (Inr (bindings, p3))"
        and b: "parse_expr n p4 = Some (Inr (body, p'))"
        and node: "node = Node ''LetExpr'' None [Node ''LetBindings'' None bindings, body]"
      by (auto simp: bind_Some_Inr)
    from let_loop_wf [OF l] expr_wf [OF b] show "wf_node node"
      by (simp add: node node_ok_def)
  qed
  have 10: "returns_list acc (parse_let_expr_loop (Suc n) p acc)" for p acc
    unfolding returns_list_def
  proof (intro allI impI)
    fix xs p'
    assume r: "parse_let_expr_loop (Suc n) p acc = Some (Inr (xs, p'))"
      and acc: "\<forall>x \<in> set acc. wf_node x"
    show "\<forall>x \<in> set xs. wf_node x"
    proof (cases "type (lookahead p) = IDENT")
      case True
      with r obtain p1 v p2 where v: "parse_expr n p1 = Some (Inr (v, p2))"
        and l: "parse_let_expr_loop n p2
            (acc @ [Node ''LetBinding'' (Some (lexeme (lookahead p))) [v]])
            = Some (Inr (xs, p'))"
        by (auto simp: bind_Some_Inr Let_def)
      from expr_wf [OF v]
      have "\<forall>x \<in> set (acc @ [Node ''LetBinding'' (Some (lexeme (lookahead p))) [v]]).
          wf_node x"
        using acc by (simp add: node_ok_def)
      from let_loop_wf [OF l this] show ?thesis .
    next
      case False
      with r acc show ?thesis by auto
    qed
  qed
  have 11: "returns_wf (parse_app_expr (Suc n) p)" for p
    unfolding returns_wf_def
  proof (intro allI impI)
    fix node p'
    assume "parse_app_expr (Suc n) p = Some (Inr (node, p'))"
    then obtain p1 args where l: "parse_app_expr_loop n p1 [] = Some (Inr (args, p'))"
      and node: "node = Node ''AppExpr'' (Some (lexeme (lookahead p))) args"
      by (auto simp: bind_Some_Inr Let_def error_def split: if_splits)
    from app_loop_wf [OF l] show "wf_node node"
      by (simp add: node node_ok_def)
  qed
  have 12: "returns_list acc (parse_app_expr_loop (Suc n) p acc)" for p acc
    unfolding returns_list_def
  proof (intro allI impI)
    fix xs p'
    assume r: "parse_app_expr_loop (Suc n) p acc = Some (Inr (xs, p'))"
      and acc: "\<forall>x \<in> set acc. wf_node x"
    show "\<forall>x \<in> set xs. wf_node x"
    proof (cases "type (lookahead p) \<notin> set [RPAREN, EOF]")
      case True
      with r obtain x p1 where x: "parse_expr n p = Some (Inr (x, p1))"
        and l: "parse_app_expr_loop n p1 (acc @ [x]) = Some (Inr (xs, p'))"
        by (auto simp: bind_Some_Inr)
      from expr_wf [OF x] acc have "\<forall>y \<in> set (acc @ [x]). wf_node y"
        by simp
      from app_loop_wf [OF l this] show ?thesis .
    next
      case False
      with r acc show ?thesis by auto
    qed
  qed
  from 1 2 3 4 5 6 13 7 8 9 10 11 12 show ?case
    by blast
qed

lemma parse_expr_wf:
  assumes "parse_expr n p = Some (Inr (node, p'))"
  shows "wf_node node"
proof -
  have "returns_wf (parse_expr n p)"
    using parser_returns [of n] by blast
  with assms show ?thesis
    by (simp add: returns_wf_def)
qed

lemma parse_loop_wf:
  "parse_loop n p acc = Some (Inr tree) \<Longrightarrow> \<forall>x \<in> set acc. wf_node x
      \<Longrightarrow> wf_node tree"
proof (induction n arbitrary: p acc)
  case 0
  then show ?case by simp
next
  case (Suc n)
  show ?case
  proof (cases "type (lookahead p) \<noteq> EOF")
    case True
    with Suc.prems(1) obtain x p1 where x: "parse_expr n p = Some (Inr (x, p1))"
      and l: "parse_loop n p1 (acc @ [x]) = Some (Inr tree)"
      by (auto simp: bind_Some_Inr)
    from parse_expr_wf [OF x] Suc.prems(2) have "\<forall>y \<in> set (acc @ [x]). wf_node y"
      by simp
    from Suc.IH [OF l this] show ?thesis .
  next
    case False
    with Suc.prems show ?thesis
      by (auto simp: node_ok_def)
  qed
qed

lemma parse_wf: "parse n p = Some (Inr tree) \<Longrightarrow> wf_node tree"
  using parse_loop_wf [of n p "[]" tree] by (simp add: parse_def)

lemma parse_node_ok:
  "parse n p = Some (Inr tree) \<Longrightarrow> x \<in> set (nodes tree) \<Longrightarrow>
      node_ok x"
  by (rule wf_node_nodes [OF parse_wf])

lemma parse_defn_expr_name:
  assumes "parse_defn_expr n p = Some (Inr (node, p'))"
    and "next_token (lexer p) = Inr (name_tok, lx)"
  shows "type (lookahead p) = DEFN \<and> type name_tok = IDENT
         \<and> node_value node = Some (lexeme name_tok)"
proof -
  obtain m where n: "n = Suc m"
    using assms(1) by (cases n) simp_all
  from assms(1) obtain kw p1 nt p2 params body
    where m1: "match p DEFN = Inr (kw, p1)" and m2: "match p1 IDENT = Inr (nt, p2)"
      and node: "node = Node ''DefnExpr'' (Some (lexeme nt)) [Node ''ParamList'' None params, body]"
    unfolding n by (auto simp: bind_Some_Inr Let_def)
  from m1 assms(2) have "type (lookahead p) = DEFN" and "lookahead p1 = name_tok"
    by (auto simp: match_Inr consume_parser_def)
  with m2 node show ?thesis
    by (auto simp: match_Inr)
qed

text \<open>
  C2. In every tree that \<^verbatim>\<open>parse\<close> returns, every \<^verbatim>\<open>ListExpr\<close> node has exactly one
  child. Every \<^verbatim>\<open>DefnExpr\<close> node has a value and exactly two children; the first is a
  \<^verbatim>\<open>ParamList\<close> node all of whose children are \<^verbatim>\<open>Param\<close> nodes, the second is an
  expression node, and the node is a parsed function definition: a call of
  \<^verbatim>\<open>parse_defn_expr\<close> returned it, with the lexeme of the identifier after \<^verbatim>\<open>defn\<close>, the
  name of the function, as its value, and with the node that \<^verbatim>\<open>parse_expr\<close> returned for
  the body as its second child. For a call of \<^verbatim>\<open>parse_defn_expr\<close> itself, the node it
  returns has the lexeme of the token that follows \<^verbatim>\<open>defn\<close> as its value, the list of
  parameters as its first child and the body that \<^verbatim>\<open>parse_expr\<close> returned as its second.
\<close>

theorem parse_arity_invariants:
  "(parse n p = Some (Inr tree) \<longrightarrow>
      (\<forall>x \<in> set (nodes tree).
         (kind x = ''ListExpr'' \<longrightarrow> length (children x) = 1)
         \<and> (kind x = ''DefnExpr'' \<longrightarrow>
              length (children x) = 2
              \<and> kind (children x ! 0) = ''ParamList''
              \<and> (\<forall>q \<in> set (children (children x ! 0)). kind q = ''Param'')
              \<and> node_value x \<noteq> None
              \<and> kind (children x ! 1) \<in> set expr_kinds
              \<and> is_parsed_defn x)))
   \<and> (parse_defn_expr k q = Some (Inr (node, q')) \<longrightarrow>
        next_token (lexer q) = Inr (name_tok, lx) \<longrightarrow>
        type name_tok = IDENT \<and> node_value node = Some (lexeme name_tok)
        \<and> (\<exists>params p5 body.
              (\<forall>c \<in> set params. kind c = ''Param'' \<and> children c = [])
              \<and> parse_expr (k - 1) p5 = Some (Inr (body, q'))
              \<and> kind body \<in> set expr_kinds
              \<and> node = Node ''DefnExpr'' (Some (lexeme name_tok))
                         [Node ''ParamList'' None params, body]))"
proof -
  have tree: "(kind x = ''ListExpr'' \<longrightarrow> length (children x) = 1)
         \<and> (kind x = ''DefnExpr'' \<longrightarrow>
              length (children x) = 2
              \<and> kind (children x ! 0) = ''ParamList''
              \<and> (\<forall>q \<in> set (children (children x ! 0)). kind q = ''Param'')
              \<and> node_value x \<noteq> None
              \<and> kind (children x ! 1) \<in> set expr_kinds
              \<and> is_parsed_defn x)"
    if "parse n p = Some (Inr tree)" and "x \<in> set (nodes tree)" for x
  proof -
    from that have "node_ok x"
      by (rule parse_node_ok)
    then show ?thesis
      unfolding node_ok_def by blast
  qed
  have call: "type name_tok = IDENT \<and> node_value node = Some (lexeme name_tok)
        \<and> (\<exists>params p5 body.
              (\<forall>c \<in> set params. kind c = ''Param'' \<and> children c = [])
              \<and> parse_expr (k - 1) p5 = Some (Inr (body, q'))
              \<and> kind body \<in> set expr_kinds
              \<and> node = Node ''DefnExpr'' (Some (lexeme name_tok))
                         [Node ''ParamList'' None params, body])"
    if a: "parse_defn_expr k q = Some (Inr (node, q'))"
      and b: "next_token (lexer q) = Inr (name_tok, lx)"
  proof -
    from parse_defn_expr_shape [OF a] b
    obtain m params p5 body where k: "k = Suc m"
      and i: "type name_tok = IDENT"
      and ps: "\<forall>c \<in> set params. kind c = ''Param'' \<and> children c = []"
      and e: "parse_expr m p5 = Some (Inr (body, q'))"
      and node: "node = Node ''DefnExpr'' (Some (lexeme name_tok))
                          [Node ''ParamList'' None params, body]"
      by auto
    from parse_expr_kind [OF e] have "kind body \<in> set expr_kinds" .
    with i ps e node show ?thesis
      unfolding k by auto
  qed
  from tree call show ?thesis
    by blast
qed

theorem parse_arity_invariants_witness:
  "parse 20 \<lparr>lexer = \<lparr>text = ''(defn f (a) a)'', pos = 1, line = 1, column =
      2\<rparr>, lookahead = Token LPAREN ''('' 1 1\<rparr>
     = Some (Inr (Node ''Program'' None [Node ''ListExpr'' None [Node ''DefnExpr'' (Some ''f'')
         [Node ''ParamList'' None [Node ''Param'' (Some ''a'') []], Node ''Identifier'' (Some
         ''a'') []]]]))
   \<and> Node ''ListExpr'' None [Node ''DefnExpr'' (Some ''f'') [Node ''ParamList'' None [Node
       ''Param'' (Some ''a'') []], Node ''Identifier'' (Some ''a'') []]] \<in> set (nodes (Node
       ''Program'' None [Node ''ListExpr'' None [Node ''DefnExpr'' (Some ''f'') [Node
       ''ParamList'' None [Node ''Param'' (Some ''a'') []], Node ''Identifier'' (Some ''a'') []]]]))
   \<and> Node ''DefnExpr'' (Some ''f'') [Node ''ParamList'' None [Node ''Param'' (Some ''a'')
       []], Node ''Identifier'' (Some ''a'') []] \<in> set (nodes (Node ''Program'' None [Node
       ''ListExpr'' None [Node ''DefnExpr'' (Some ''f'') [Node ''ParamList'' None [Node
       ''Param'' (Some ''a'') []], Node ''Identifier'' (Some ''a'') []]]]))
   \<and> parse_defn_expr 20 \<lparr>lexer = \<lparr>text = ''(defn f (a) a)'', pos = 5, line =
       1, column = 6\<rparr>, lookahead = Token DEFN ''defn'' 1 2\<rparr>
       = Some (Inr (Node ''DefnExpr'' (Some ''f'') [Node ''ParamList'' None [Node ''Param''
           (Some ''a'') []], Node ''Identifier'' (Some ''a'') []], \<lparr>lexer = \<lparr>text
           = ''(defn f (a) a)'', pos = 14, line = 1, column = 15\<rparr>, lookahead = Token
           RPAREN '')'' 1 14\<rparr>))
   \<and> next_token (lexer \<lparr>lexer = \<lparr>text = ''(defn f (a) a)'', pos = 5, line =
       1, column = 6\<rparr>, lookahead = Token DEFN ''defn'' 1 2\<rparr>)
       = Inr (Token IDENT ''f'' 1 7, \<lparr>text = ''(defn f (a) a)'', pos = 7, line = 1,
           column = 8\<rparr>)
   \<and> type (Token IDENT ''f'' 1 7) = IDENT
   \<and> node_value (Node ''DefnExpr'' (Some ''f'') [Node ''ParamList'' None [Node ''Param''
       (Some ''a'') []], Node ''Identifier'' (Some ''a'') []]) = Some (lexeme (Token IDENT ''f''
       1 7))
   \<and> kind (Node ''ListExpr'' None [Node ''DefnExpr'' (Some ''f'') [Node ''ParamList'' None
       [Node ''Param'' (Some ''a'') []], Node ''Identifier'' (Some ''a'') []]]) = ''ListExpr''
   \<and> length (children (Node ''ListExpr'' None [Node ''DefnExpr'' (Some ''f'') [Node
       ''ParamList'' None [Node ''Param'' (Some ''a'') []], Node ''Identifier'' (Some ''a'')
       []]])) = 1
   \<and> kind (Node ''DefnExpr'' (Some ''f'') [Node ''ParamList'' None [Node ''Param'' (Some
       ''a'') []], Node ''Identifier'' (Some ''a'') []]) = ''DefnExpr''
   \<and> length (children (Node ''DefnExpr'' (Some ''f'') [Node ''ParamList'' None [Node
       ''Param'' (Some ''a'') []], Node ''Identifier'' (Some ''a'') []])) = 2
   \<and> kind (children (Node ''DefnExpr'' (Some ''f'') [Node ''ParamList'' None [Node
       ''Param'' (Some ''a'') []], Node ''Identifier'' (Some ''a'') []]) ! 0) = ''ParamList''
   \<and> kind (children (Node ''DefnExpr'' (Some ''f'')
       [Node ''ParamList'' None [Node ''Param'' (Some ''a'') []], Node ''Identifier'' (Some ''a'') []]) ! 1) = ''Identifier''"
proof -
  have a: "parse 20 \<lparr>lexer = \<lparr>text = ''(defn f (a) a)'', pos = 1, line = 1, column
      = 2\<rparr>, lookahead = Token LPAREN ''('' 1 1\<rparr>
     = Some (Inr (Node ''Program'' None [Node ''ListExpr'' None [Node ''DefnExpr'' (Some ''f'')
         [Node ''ParamList'' None [Node ''Param'' (Some ''a'') []], Node ''Identifier'' (Some
         ''a'') []]]]))"
    by code_simp
  have b: "parse_defn_expr 20 \<lparr>lexer = \<lparr>text = ''(defn f (a) a)'', pos = 5, line =
      1, column = 6\<rparr>, lookahead = Token DEFN ''defn'' 1 2\<rparr>
       = Some (Inr (Node ''DefnExpr'' (Some ''f'') [Node ''ParamList'' None [Node ''Param''
           (Some ''a'') []], Node ''Identifier'' (Some ''a'') []], \<lparr>lexer = \<lparr>text
           = ''(defn f (a) a)'', pos = 14, line = 1, column = 15\<rparr>, lookahead = Token
           RPAREN '')'' 1 14\<rparr>))"
    by code_simp
  have c: "next_token (lexer \<lparr>lexer = \<lparr>text = ''(defn f (a) a)'', pos = 5, line =
      1, column = 6\<rparr>, lookahead = Token DEFN ''defn'' 1 2\<rparr>)
       = Inr (Token IDENT ''f'' 1 7, \<lparr>text = ''(defn f (a) a)'', pos = 7, line = 1,
           column = 8\<rparr>)"
    by code_simp
  have d: "Node ''ListExpr'' None [Node ''DefnExpr'' (Some ''f'') [Node ''ParamList'' None [Node
      ''Param'' (Some ''a'') []], Node ''Identifier'' (Some ''a'') []]] \<in> set (nodes (Node
      ''Program'' None [Node ''ListExpr'' None [Node ''DefnExpr'' (Some ''f'') [Node
      ''ParamList'' None [Node ''Param'' (Some ''a'') []], Node ''Identifier'' (Some ''a'') []]]]))"
    "Node ''DefnExpr'' (Some ''f'') [Node ''ParamList'' None [Node ''Param'' (Some ''a'') []],
        Node ''Identifier'' (Some ''a'') []] \<in> set (nodes (Node ''Program'' None [Node
        ''ListExpr'' None [Node ''DefnExpr'' (Some ''f'') [Node ''ParamList'' None [Node
        ''Param'' (Some ''a'') []], Node ''Identifier'' (Some ''a'') []]]]))"
    by simp_all
  from a b c d
    parse_arity_invariants [of 20 "\<lparr>lexer = \<lparr>text = ''(defn f (a) a)'', pos = 1,
        line = 1, column = 2\<rparr>, lookahead = Token LPAREN ''('' 1 1\<rparr>" "Node
        ''Program'' None [Node ''ListExpr'' None [Node ''DefnExpr'' (Some ''f'') [Node
        ''ParamList'' None [Node ''Param'' (Some ''a'') []], Node ''Identifier'' (Some ''a'')
        []]]]" 20 "\<lparr>lexer = \<lparr>text = ''(defn f (a) a)'', pos = 5, line = 1, column
        = 6\<rparr>, lookahead = Token DEFN ''defn'' 1 2\<rparr>" "Node ''DefnExpr'' (Some
        ''f'') [Node ''ParamList'' None [Node ''Param'' (Some ''a'') []], Node ''Identifier''
        (Some ''a'') []]" "\<lparr>lexer = \<lparr>text = ''(defn f (a) a)'', pos = 14, line =
        1, column = 15\<rparr>, lookahead = Token RPAREN '')'' 1 14\<rparr>" "Token IDENT ''f''
        1 7" "\<lparr>text = ''(defn f (a) a)'', pos = 7, line = 1, column = 8\<rparr>"]
  show ?thesis
    by simp
qed

lemma parse_text_determined:
  assumes "parse_text m code = Some r"
  shows "parse_text n code = None \<or> parse_text n code = Some r"
proof (cases "n \<le> m")
  case True
  show ?thesis
  proof (cases "parse_text n code")
    case None
    then show ?thesis by simp
  next
    case (Some r')
    from parse_text_bound_mono [OF Some True] assms show ?thesis
      using Some by simp
  qed
next
  case False
  then have "m \<le> n" by simp
  from parse_text_bound_mono [OF assms this] show ?thesis by simp
qed

text \<open>
  C6. Parsing the text \<^verbatim>\<open>(+ 1 2\<close> raises the syntax error that expects
      \<^verbatim>\<open>RPAREN\<close> and
  reports the \<^verbatim>\<open>EOF\<close> token (at line 1, column 7) as the token it found.
      This is the
  result for every bound of at least 8 on the depth of the calls, and no bound makes the
  parser return a tree.
\<close>

theorem missing_rparen_error:
  "(8 \<le> n \<longrightarrow>
      parse_text n ''(+ 1 2''
        = Some (Inl (ParserError ''erwartet RPAREN'' (Token EOF ''<EOF>'' 1 7))))
   \<and> parse_text n ''(+ 1 2'' \<noteq> Some (Inr tree)"
proof -
  have a: "parse_text 8 ''(+ 1 2''
      = Some (Inl (ParserError ''erwartet RPAREN'' (Token EOF ''<EOF>'' 1 7)))"
    by code_simp
  from parse_text_bound_mono [OF a] parse_text_determined [OF a, of n] show ?thesis
    by auto
qed

theorem missing_rparen_error_witness:
  "(8::nat) \<le> 9
   \<and> parse_text 9 ''(+ 1 2''
        = Some (Inl (ParserError ''erwartet RPAREN'' (Token EOF ''<EOF>'' 1 7)))"
  using missing_rparen_error [of 9] by simp


lemma parse_do_expr_rparen:
  assumes "type (lookahead p) = DO" and "next_token (lexer p) = Inr (tok, lx)"
    and "type tok = RPAREN"
  shows "parse_do_expr (Suc n) p
           = Some (Inl (ParserError ''mindestens einen Ausdruck erwartet'' tok))"
  using assms by (simp add: match_def consume_parser_def error_def)

text \<open>
  C4. Parsing the text \<^verbatim>\<open>(do)\<close> raises the syntax error that asks for at
      least one
  expression, reporting the closing parenthesis at line 1, column 4; this is the result
  for every bound of at least 5 on the depth of the calls, and no bound makes the parser
  return a tree. In general \<^verbatim>\<open>parse_do_expr\<close> raises that error whenever
      the token
  after the keyword \<^verbatim>\<open>do\<close> is a closing parenthesis, and in every tree
      that \<^verbatim>\<open>parse\<close>
  returns, every \<^verbatim>\<open>DoExpr\<close> node has at least one child.
\<close>

theorem empty_do_is_error:
  "(5 \<le> n \<longrightarrow>
      parse_text n ''(do)''
        = Some (Inl (ParserError ''mindestens einen Ausdruck erwartet''
                       (Token RPAREN '')'' 1 4))))
   \<and> parse_text n ''(do)'' \<noteq> Some (Inr t)
   \<and> (type (lookahead p) = DO \<longrightarrow> next_token (lexer p) = Inr (tok, lx)
       \<longrightarrow>
        type tok = RPAREN \<longrightarrow>
        parse_do_expr (Suc k) p
          = Some (Inl (ParserError ''mindestens einen Ausdruck erwartet'' tok)))
   \<and> (parse m q = Some (Inr tree) \<longrightarrow>
        (\<forall>x \<in> set (nodes tree). kind x = ''DoExpr'' \<longrightarrow> children x
            \<noteq> []))"
proof (intro conjI impI ballI)
  have a: "parse_text 5 ''(do)''
      = Some (Inl (ParserError ''mindestens einen Ausdruck erwartet''
                     (Token RPAREN '')'' 1 4)))"
    by code_simp
  show "parse_text n ''(do)''
      = Some (Inl (ParserError ''mindestens einen Ausdruck erwartet''
                     (Token RPAREN '')'' 1 4)))" if "5 \<le> n"
    using parse_text_bound_mono [OF a that] .
  show "parse_text n ''(do)'' \<noteq> Some (Inr t)"
    using parse_text_determined [OF a, of n] by auto
next
  assume "type (lookahead p) = DO" and "next_token (lexer p) = Inr (tok, lx)"
    and "type tok = RPAREN"
  then show "parse_do_expr (Suc k) p
      = Some (Inl (ParserError ''mindestens einen Ausdruck erwartet'' tok))"
    by (rule parse_do_expr_rparen)
next
  fix x
  assume "parse m q = Some (Inr tree)" and "x \<in> set (nodes tree)"
  then have "node_ok x"
    by (rule parse_node_ok)
  moreover assume "kind x = ''DoExpr''"
  ultimately show "children x \<noteq> []"
    by (simp add: node_ok_def)
qed

theorem empty_do_is_error_witness:
  "(5::nat) \<le> 5
   \<and> parse_text 5 ''(do)''
       = Some (Inl (ParserError ''mindestens einen Ausdruck erwartet''
                      (Token RPAREN '')'' 1 4)))
   \<and> type (lookahead \<lparr>lexer = \<lparr>text = ''(do)'', pos = 3, line = 1, column =
       4\<rparr>, lookahead = Token DO ''do'' 1 2\<rparr>) = DO
   \<and> next_token (lexer \<lparr>lexer = \<lparr>text = ''(do)'', pos = 3, line = 1, column =
       4\<rparr>, lookahead = Token DO ''do'' 1 2\<rparr>)
       = Inr (Token RPAREN '')'' 1 4, \<lparr>text = ''(do)'', pos = 4, line = 1, column =
           5\<rparr>)
   \<and> type (Token RPAREN '')'' 1 4) = RPAREN
   \<and> parse_do_expr (Suc 0) \<lparr>lexer = \<lparr>text = ''(do)'', pos = 3, line = 1,
       column = 4\<rparr>, lookahead = Token DO ''do'' 1 2\<rparr>
       = Some (Inl (ParserError ''mindestens einen Ausdruck erwartet''
                      (Token RPAREN '')'' 1 4)))
   \<and> parse 9 \<lparr>lexer = \<lparr>text = ''(do 1)'', pos = 1, line = 1, column =
       2\<rparr>, lookahead = Token LPAREN ''('' 1 1\<rparr>
       = Some (Inr (Node ''Program'' None [Node ''ListExpr'' None [Node ''DoExpr'' None [Node
           ''IntLiteral'' (Some ''1'') []]]]))
   \<and> Node ''DoExpr'' None [Node ''IntLiteral'' (Some ''1'') []] \<in> set (nodes (Node
       ''Program'' None [Node ''ListExpr'' None [Node ''DoExpr'' None [Node ''IntLiteral'' (Some
       ''1'') []]]]))
   \<and> kind (Node ''DoExpr'' None [Node ''IntLiteral'' (Some ''1'') []]) = ''DoExpr''
   \<and> children (Node ''DoExpr'' None [Node ''IntLiteral'' (Some ''1'') []]) \<noteq> []"
proof -
  have a: "type (lookahead \<lparr>lexer = \<lparr>text = ''(do)'', pos = 3, line = 1, column =
      4\<rparr>, lookahead = Token DO ''do'' 1 2\<rparr>) = DO"
    by simp
  have b: "next_token (lexer \<lparr>lexer = \<lparr>text = ''(do)'', pos = 3, line = 1, column
      = 4\<rparr>, lookahead = Token DO ''do'' 1 2\<rparr>)
       = Inr (Token RPAREN '')'' 1 4, \<lparr>text = ''(do)'', pos = 4, line = 1, column =
           5\<rparr>)"
    by code_simp
  have c: "type (Token RPAREN '')'' 1 4) = RPAREN"
    by simp
  have d: "parse 9 \<lparr>lexer = \<lparr>text = ''(do 1)'', pos = 1, line = 1, column =
      2\<rparr>, lookahead = Token LPAREN ''('' 1 1\<rparr>
       = Some (Inr (Node ''Program'' None [Node ''ListExpr'' None [Node ''DoExpr'' None [Node
           ''IntLiteral'' (Some ''1'') []]]]))"
    by code_simp
  have e: "Node ''DoExpr'' None [Node ''IntLiteral'' (Some ''1'') []] \<in> set (nodes (Node
      ''Program'' None [Node ''ListExpr'' None [Node ''DoExpr'' None [Node ''IntLiteral'' (Some
      ''1'') []]]]))"
    "kind (Node ''DoExpr'' None [Node ''IntLiteral'' (Some ''1'') []]) = ''DoExpr''"
    by simp_all
  from a b c d e
    empty_do_is_error [of 5 t "\<lparr>lexer = \<lparr>text = ''(do)'', pos = 3, line = 1,
        column = 4\<rparr>, lookahead = Token DO ''do'' 1 2\<rparr>" "Token RPAREN '')'' 1 4"
        "\<lparr>text = ''(do)'', pos = 4, line = 1, column = 5\<rparr>" 0 9 "\<lparr>lexer =
        \<lparr>text = ''(do 1)'', pos = 1, line = 1, column = 2\<rparr>, lookahead = Token
        LPAREN ''('' 1 1\<rparr>" "Node ''Program'' None [Node ''ListExpr'' None [Node
        ''DoExpr'' None [Node ''IntLiteral'' (Some ''1'') []]]]"]
  show ?thesis
    by blast
qed

lemma parse_if_expr_else:
  assumes "type (lookahead p) = IF" and "consume_parser p = Inr p1"
    and "parse_expr m p1 = Some (Inr (cond, p2))"
    and "parse_expr m p2 = Some (Inr (then_branch, p3))"
  shows "parse_if_expr (Suc m) p =
    (if type (lookahead p3) \<noteq> RPAREN
     then (case parse_expr m p3 of
             None \<Rightarrow> None
           | Some (Inl e) \<Rightarrow> Some (Inl e)
           | Some (Inr (else_branch, p4)) \<Rightarrow>
               Some (Inr (Node ''IfExpr'' None [cond, then_branch, else_branch], p4)))
     else Some (Inr (Node ''IfExpr'' None [cond, then_branch], p3)))"
  using assms by (simp add: match_def bind_def)

lemma parse_if_expr_children:
  assumes "parse_if_expr n p = Some (Inr (node, p'))"
  shows "kind node = ''IfExpr''
         \<and> (length (children node) = 2 \<or> length (children node) = 3)"
proof -
  obtain m where n: "n = Suc m"
    using assms by (cases n) simp_all
  from assms show ?thesis
    unfolding n by (auto simp: bind_Some_Inr split: if_splits)
qed

text \<open>
  C3. In \<^verbatim>\<open>parse_if_expr\<close>, once the condition and the then-branch are
      parsed, the
  else-branch is parsed exactly when the lookahead token is not a closing parenthesis:
  then the result is that of parsing a third expression, which becomes the third child,
  and otherwise the node has the two children. A node returned by
      \<^verbatim>\<open>parse_if_expr\<close> is
  an \<^verbatim>\<open>IfExpr\<close> with 2 or 3 children, and so is every
      \<^verbatim>\<open>IfExpr\<close> node of a tree that
  \<^verbatim>\<open>parse\<close> returns. The text \<^verbatim>\<open>(if (< n 10) (print 1)
      (print 2))\<close> parses, for every
  bound of at least 12 on the depth of the calls, to a \<^verbatim>\<open>ListExpr\<close> whose
      only child is
  an \<^verbatim>\<open>IfExpr\<close> with three children, each a
      \<^verbatim>\<open>ListExpr\<close>.
\<close>

theorem if_else_branch:
  "(type (lookahead p) = IF \<longrightarrow> consume_parser p = Inr p1 \<longrightarrow>
      parse_expr m p1 = Some (Inr (cond, p2)) \<longrightarrow>
      parse_expr m p2 = Some (Inr (then_branch, p3)) \<longrightarrow>
      parse_if_expr (Suc m) p =
        (if type (lookahead p3) \<noteq> RPAREN
         then (case parse_expr m p3 of
                 None \<Rightarrow> None
               | Some (Inl e) \<Rightarrow> Some (Inl e)
               | Some (Inr (else_branch, p4)) \<Rightarrow>
                   Some (Inr (Node ''IfExpr'' None [cond, then_branch, else_branch], p4)))
         else Some (Inr (Node ''IfExpr'' None [cond, then_branch], p3))))
   \<and> (parse_if_expr k q = Some (Inr (node, q')) \<longrightarrow>
        kind node = ''IfExpr''
        \<and> (length (children node) = 2 \<or> length (children node) = 3))
   \<and> (parse j r = Some (Inr tree) \<longrightarrow>
        (\<forall>x \<in> set (nodes tree).
           kind x = ''IfExpr'' \<longrightarrow> length (children x) = 2 \<or> length (children
               x) = 3))
   \<and> (12 \<le> n \<longrightarrow>
        parse_text n ''(if (< n 10) (print 1) (print 2))''
          = Some (Inr (Node ''Program'' None
                  [Node ''ListExpr'' None
                    [Node ''IfExpr'' None
                      [Node ''ListExpr'' None
                        [Node ''AppExpr'' (Some ''<'')
                          [Node ''Identifier'' (Some ''n'') [],
                           Node ''IntLiteral'' (Some ''10'') []]],
                       Node ''ListExpr'' None
                        [Node ''AppExpr'' (Some ''print'')
                          [Node ''IntLiteral'' (Some ''1'') []]],
                       Node ''ListExpr'' None
                        [Node ''AppExpr'' (Some ''print'')
                          [Node ''IntLiteral'' (Some ''2'') []]]]]])))"
proof (intro conjI impI ballI)
  assume "type (lookahead p) = IF" and "consume_parser p = Inr p1"
    and "parse_expr m p1 = Some (Inr (cond, p2))"
    and "parse_expr m p2 = Some (Inr (then_branch, p3))"
  then show "parse_if_expr (Suc m) p =
        (if type (lookahead p3) \<noteq> RPAREN
         then (case parse_expr m p3 of
                 None \<Rightarrow> None
               | Some (Inl e) \<Rightarrow> Some (Inl e)
               | Some (Inr (else_branch, p4)) \<Rightarrow>
                   Some (Inr (Node ''IfExpr'' None [cond, then_branch, else_branch], p4)))
         else Some (Inr (Node ''IfExpr'' None [cond, then_branch], p3)))"
    by (rule parse_if_expr_else)
next
  assume a: "parse_if_expr k q = Some (Inr (node, q'))"
  from parse_if_expr_children [OF a] show "kind node = ''IfExpr''"
    by simp
  from parse_if_expr_children [OF a]
  show "length (children node) = 2 \<or> length (children node) = 3"
    by simp
next
  fix x
  assume "parse j r = Some (Inr tree)" and "x \<in> set (nodes tree)"
  then have "node_ok x"
    by (rule parse_node_ok)
  moreover assume "kind x = ''IfExpr''"
  ultimately show "length (children x) = 2 \<or> length (children x) = 3"
    by (simp add: node_ok_def)
next
  have a: "parse_text 12 ''(if (< n 10) (print 1) (print 2))''
          = Some (Inr (Node ''Program'' None
                  [Node ''ListExpr'' None
                    [Node ''IfExpr'' None
                      [Node ''ListExpr'' None
                        [Node ''AppExpr'' (Some ''<'')
                          [Node ''Identifier'' (Some ''n'') [],
                           Node ''IntLiteral'' (Some ''10'') []]],
                       Node ''ListExpr'' None
                        [Node ''AppExpr'' (Some ''print'')
                          [Node ''IntLiteral'' (Some ''1'') []]],
                       Node ''ListExpr'' None
                        [Node ''AppExpr'' (Some ''print'')
                          [Node ''IntLiteral'' (Some ''2'') []]]]]]))"
    by code_simp
  assume "12 \<le> n"
  from parse_text_bound_mono [OF a this]
  show "parse_text n ''(if (< n 10) (print 1) (print 2))''
          = Some (Inr (Node ''Program'' None
                  [Node ''ListExpr'' None
                    [Node ''IfExpr'' None
                      [Node ''ListExpr'' None
                        [Node ''AppExpr'' (Some ''<'')
                          [Node ''Identifier'' (Some ''n'') [],
                           Node ''IntLiteral'' (Some ''10'') []]],
                       Node ''ListExpr'' None
                        [Node ''AppExpr'' (Some ''print'')
                          [Node ''IntLiteral'' (Some ''1'') []]],
                       Node ''ListExpr'' None
                        [Node ''AppExpr'' (Some ''print'')
                          [Node ''IntLiteral'' (Some ''2'') []]]]]]))" .
qed

theorem if_else_branch_witness:
  "type (lookahead \<lparr>lexer = \<lparr>text = ''(if a b)'', pos = 3, line = 1, column =
      4\<rparr>, lookahead = Token IF ''if'' 1 2\<rparr>) = IF
   \<and> consume_parser \<lparr>lexer = \<lparr>text = ''(if a b)'', pos = 3, line = 1, column
       = 4\<rparr>, lookahead = Token IF ''if'' 1 2\<rparr>
       = Inr \<lparr>lexer = \<lparr>text = ''(if a b)'', pos = 5, line = 1, column = 6\<rparr>,
           lookahead = Token IDENT ''a'' 1 5\<rparr>
   \<and> parse_expr 2 \<lparr>lexer = \<lparr>text = ''(if a b)'', pos = 5, line = 1, column =
       6\<rparr>, lookahead = Token IDENT ''a'' 1 5\<rparr>
       = Some (Inr (Node ''Identifier'' (Some ''a'') [], \<lparr>lexer = \<lparr>text =
           ''(if a b)'', pos = 7, line = 1, column = 8\<rparr>, lookahead = Token IDENT ''b'' 1
           7\<rparr>))
   \<and> parse_expr 2 \<lparr>lexer = \<lparr>text = ''(if a b)'', pos = 7, line = 1, column =
       8\<rparr>, lookahead = Token IDENT ''b'' 1 7\<rparr>
       = Some (Inr (Node ''Identifier'' (Some ''b'') [], \<lparr>lexer = \<lparr>text =
           ''(if a b)'', pos = 8, line = 1, column = 9\<rparr>, lookahead = Token RPAREN '')'' 1
           8\<rparr>))
   \<and> type (lookahead \<lparr>lexer = \<lparr>text = ''(if a b)'', pos = 8, line = 1, column
       = 9\<rparr>, lookahead = Token RPAREN '')'' 1 8\<rparr>) = RPAREN
   \<and> parse_if_expr (Suc 2) \<lparr>lexer = \<lparr>text = ''(if a b)'', pos = 3, line = 1,
       column = 4\<rparr>, lookahead = Token IF ''if'' 1 2\<rparr>
       = Some (Inr (Node ''IfExpr'' None [Node ''Identifier'' (Some ''a'') [], Node
           ''Identifier'' (Some ''b'') []], \<lparr>lexer = \<lparr>text = ''(if a b)'', pos =
           8, line = 1, column = 9\<rparr>, lookahead = Token RPAREN '')'' 1 8\<rparr>))
   \<and> kind (Node ''IfExpr'' None [Node ''Identifier'' (Some ''a'') [], Node ''Identifier''
       (Some ''b'') []]) = ''IfExpr''
   \<and> length (children (Node ''IfExpr'' None [Node ''Identifier'' (Some ''a'') [], Node
       ''Identifier'' (Some ''b'') []])) = 2
   \<and> parse 9 \<lparr>lexer = \<lparr>text = ''(if a b)'', pos = 1, line = 1, column =
       2\<rparr>, lookahead = Token LPAREN ''('' 1 1\<rparr>
       = Some (Inr (Node ''Program'' None [Node ''ListExpr'' None [Node ''IfExpr'' None [Node
           ''Identifier'' (Some ''a'') [], Node ''Identifier'' (Some ''b'') []]]]))
   \<and> Node ''IfExpr'' None [Node ''Identifier'' (Some ''a'') [], Node ''Identifier'' (Some
       ''b'') []] \<in> set (nodes (Node ''Program'' None [Node ''ListExpr'' None [Node
       ''IfExpr'' None [Node ''Identifier'' (Some ''a'') [], Node ''Identifier'' (Some ''b'')
       []]]]))
   \<and> (12::nat) \<le> 12
   \<and> parse_text 12 ''(if (< n 10) (print 1) (print 2))''
       = Some (Inr (Node ''Program'' None
                  [Node ''ListExpr'' None
                    [Node ''IfExpr'' None
                      [Node ''ListExpr'' None
                        [Node ''AppExpr'' (Some ''<'')
                          [Node ''Identifier'' (Some ''n'') [],
                           Node ''IntLiteral'' (Some ''10'') []]],
                       Node ''ListExpr'' None
                        [Node ''AppExpr'' (Some ''print'')
                          [Node ''IntLiteral'' (Some ''1'') []]],
                       Node ''ListExpr'' None
                        [Node ''AppExpr'' (Some ''print'')
                          [Node ''IntLiteral'' (Some ''2'') []]]]]]))"
proof -
  have a: "type (lookahead \<lparr>lexer = \<lparr>text = ''(if a b)'', pos = 3, line = 1,
      column = 4\<rparr>, lookahead = Token IF ''if'' 1 2\<rparr>) = IF"
    by simp
  have b: "consume_parser \<lparr>lexer = \<lparr>text = ''(if a b)'', pos = 3, line = 1, column
      = 4\<rparr>, lookahead = Token IF ''if'' 1 2\<rparr>
       = Inr \<lparr>lexer = \<lparr>text = ''(if a b)'', pos = 5, line = 1, column = 6\<rparr>,
           lookahead = Token IDENT ''a'' 1 5\<rparr>"
    by code_simp
  have c: "parse_expr 2 \<lparr>lexer = \<lparr>text = ''(if a b)'', pos = 5, line = 1, column =
      6\<rparr>, lookahead = Token IDENT ''a'' 1 5\<rparr>
       = Some (Inr (Node ''Identifier'' (Some ''a'') [], \<lparr>lexer = \<lparr>text =
           ''(if a b)'', pos = 7, line = 1, column = 8\<rparr>, lookahead = Token IDENT ''b'' 1
           7\<rparr>))"
    by code_simp
  have d: "parse_expr 2 \<lparr>lexer = \<lparr>text = ''(if a b)'', pos = 7, line = 1, column =
      8\<rparr>, lookahead = Token IDENT ''b'' 1 7\<rparr>
       = Some (Inr (Node ''Identifier'' (Some ''b'') [], \<lparr>lexer = \<lparr>text =
           ''(if a b)'', pos = 8, line = 1, column = 9\<rparr>, lookahead = Token RPAREN '')'' 1
           8\<rparr>))"
    by code_simp
  have e: "type (lookahead \<lparr>lexer = \<lparr>text = ''(if a b)'', pos = 8, line = 1,
      column = 9\<rparr>, lookahead = Token RPAREN '')'' 1 8\<rparr>) = RPAREN"
    by simp
  have f: "parse 9 \<lparr>lexer = \<lparr>text = ''(if a b)'', pos = 1, line = 1, column =
      2\<rparr>, lookahead = Token LPAREN ''('' 1 1\<rparr>
       = Some (Inr (Node ''Program'' None [Node ''ListExpr'' None [Node ''IfExpr'' None [Node
           ''Identifier'' (Some ''a'') [], Node ''Identifier'' (Some ''b'') []]]]))"
    by code_simp
  have g: "Node ''IfExpr'' None [Node ''Identifier'' (Some ''a'') [], Node ''Identifier'' (Some
      ''b'') []] \<in> set (nodes (Node ''Program'' None [Node ''ListExpr'' None [Node
      ''IfExpr'' None [Node ''Identifier'' (Some ''a'') [], Node ''Identifier'' (Some ''b'')
      []]]]))"
    by simp
  have h: "length (children (Node ''IfExpr'' None [Node ''Identifier'' (Some ''a'') [], Node
      ''Identifier'' (Some ''b'') []])) = 2" "kind (Node ''IfExpr'' None [Node ''Identifier''
      (Some ''a'') [], Node ''Identifier'' (Some ''b'') []]) = ''IfExpr''"
    by simp_all
  have i: "parse_if_expr (Suc 2) \<lparr>lexer = \<lparr>text = ''(if a b)'', pos = 3, line = 1,
      column = 4\<rparr>, lookahead = Token IF ''if'' 1 2\<rparr>
       = Some (Inr (Node ''IfExpr'' None [Node ''Identifier'' (Some ''a'') [], Node
           ''Identifier'' (Some ''b'') []], \<lparr>lexer = \<lparr>text = ''(if a b)'', pos =
           8, line = 1, column = 9\<rparr>, lookahead = Token RPAREN '')'' 1 8\<rparr>))"
    using if_else_branch [of "\<lparr>lexer = \<lparr>text = ''(if a b)'', pos = 3, line = 1,
        column = 4\<rparr>, lookahead = Token IF ''if'' 1 2\<rparr>" "\<lparr>lexer =
        \<lparr>text = ''(if a b)'', pos = 5, line = 1, column = 6\<rparr>, lookahead = Token
        IDENT ''a'' 1 5\<rparr>" 2 "Node ''Identifier'' (Some ''a'') []" "\<lparr>lexer =
        \<lparr>text = ''(if a b)'', pos = 7, line = 1, column = 8\<rparr>, lookahead = Token
        IDENT ''b'' 1 7\<rparr>" "Node ''Identifier'' (Some ''b'') []" "\<lparr>lexer =
        \<lparr>text = ''(if a b)'', pos = 8, line = 1, column = 9\<rparr>, lookahead = Token
        RPAREN '')'' 1 8\<rparr>"] a b c d e
    by simp
  have j: "parse_text 12 ''(if (< n 10) (print 1) (print 2))''
       = Some (Inr (Node ''Program'' None
                  [Node ''ListExpr'' None
                    [Node ''IfExpr'' None
                      [Node ''ListExpr'' None
                        [Node ''AppExpr'' (Some ''<'')
                          [Node ''Identifier'' (Some ''n'') [],
                           Node ''IntLiteral'' (Some ''10'') []]],
                       Node ''ListExpr'' None
                        [Node ''AppExpr'' (Some ''print'')
                          [Node ''IntLiteral'' (Some ''1'') []]],
                       Node ''ListExpr'' None
                        [Node ''AppExpr'' (Some ''print'')
                          [Node ''IntLiteral'' (Some ''2'') []]]]]]))"
    using if_else_branch [of _ _ _ _ _ _ _ _ _ _ _ _ _ _ 12] by simp
  from a b c d e f g h i j show ?thesis
    by simp
qed

end
